theory Spec2Isabelle
  imports Main
begin

section \<open>The Markdown orchestrator of mistune (\<^verbatim>\<open>src/mistune/markdown.py\<close>)\<close>

text \<open>
  The theory embeds the class \<^verbatim>\<open>Markdown\<close>: the recursive generator
  \<^verbatim>\<open>_iter_render\<close>, \<^verbatim>\<open>render_state\<close>, \<^verbatim>\<open>parse\<close>, \<^verbatim>\<open>read\<close> and
  \<^verbatim>\<open>__call__\<close>. The block parser, the inline parser, the renderer and the hooks are
  objects the class only calls; they are parameters of the model. Every call of such a
  collaborator may mutate the parse state and may raise, so it is a function from the
  state to an outcome (\<open>Inl\<close> an exception, \<open>Inr\<close> a value) and the state it leaves.
\<close>

subsection \<open>Python strings\<close>

text \<open>
  A Python \<^verbatim>\<open>str\<close> is a sequence of code points, here a list of natural numbers.
  \<open>pystr\<close> turns an ASCII literal into one.
\<close>

type_synonym pystr = "nat list"

definition pystr :: "string \<Rightarrow> pystr" where
  "pystr s = map of_char s"

definition CR :: nat where
  "CR = 13"

definition LF :: nat where
  "LF = 10"

text \<open>
  The code points \<^verbatim>\<open>str.strip()\<close> removes when it is called with no argument: the
  white space of Unicode as CPython knows it (U+0009..U+000D, U+001C..U+0020, U+0085,
  U+00A0, U+1680, U+2000..U+200A, U+2028, U+2029, U+202F, U+205F, U+3000).
\<close>

definition isspace :: "nat \<Rightarrow> bool" where
  "isspace c = (c \<in> set [9, 10, 11, 12, 13, 28, 29, 30, 31, 32, 133, 160, 5760,
      8192, 8193, 8194, 8195, 8196, 8197, 8198, 8199, 8200, 8201, 8202,
      8232, 8233, 8239, 8287, 12288])"

definition strip :: "pystr \<Rightarrow> pystr" where
  "strip s = rev (dropWhile isspace (rev (dropWhile isspace s)))"

text \<open>
  \<^verbatim>\<open>s.replace(old, new)\<close>: the occurrences of \<open>old\<close> are found from the left and do
  not overlap. With an empty \<open>old\<close> Python puts \<open>new\<close> before every character and at the
  end.
\<close>

fun replace :: "'a list \<Rightarrow> 'a list \<Rightarrow> 'a list \<Rightarrow> 'a list" where
  "replace old new [] = (if old = [] then new else [])"
| "replace old new (c # cs) =
     (if old = [] then new @ c # replace old new cs
      else if take (length old) (c # cs) = old
        then new @ replace old new (drop (length old) (c # cs))
      else c # replace old new cs)"

definition endswith :: "'a list \<Rightarrow> 'a list \<Rightarrow> bool" where
  "endswith s suf = (length suf \<le> length s \<and> drop (length s - length suf) s = suf)"

subsection \<open>Tokens and the parse state\<close>

text \<open>
  A token is a Python dict. \<^verbatim>\<open>_iter_render\<close> looks at two of its keys only,
  \<^verbatim>\<open>'children'\<close> (a list of tokens) and \<^verbatim>\<open>'text'\<close> (a string); each of them may be
  present or absent, independently of the other. The type of the token and its
  remaining entries are carried along unread.
\<close>

datatype pyval = PyNone | PyStr pystr | PyInt int | PyList "pyval list"

datatype token = Token (tok_type: string) (tok_attrs: "(string \<times> pyval) list")
  (tok_children: "token list option") (tok_text: "pystr option")

datatype error = IOError | DecodeError | Exception string

type_synonym env = "string \<rightharpoonup> pyval"

text \<open>
  \<^verbatim>\<open>BlockState\<close> is defined in \<^verbatim>\<open>core.py\<close>; the orchestrator uses its attributes
  \<^verbatim>\<open>tokens\<close> and \<^verbatim>\<open>env\<close> and its method \<^verbatim>\<open>process\<close>, which receives the source text.
\<close>

record block_state =
  src :: pystr
  tokens :: "token list"
  env :: env

text \<open>
  What a run does to its collaborators is observed in a log: one entry for every call
  of a collaborator, in the order of the calls, one entry \<open>Yield\<close> for every token a
  generator \<^verbatim>\<open>_iter_render\<close> yields (with the type of the token), and one entry
  \<open>Raised\<close> after a call that raised. The collaborators are functions of the parse
  state and never see the log.
\<close>

datatype event =
    Process pystr
  | BeforeParseHook nat
  | BlockParse
  | BeforeRenderHook nat
  | Render
  | Inline pystr
  | Yield string
  | AfterRenderHook nat
  | Raised error

record world =
  st :: block_state
  log :: "event list"

fun is_inline :: "event \<Rightarrow> bool" where
  "is_inline (Inline s) = True"
| "is_inline ev = False"

subsection \<open>The collaborators\<close>

text \<open>
  The inline parser is called as \<^verbatim>\<open>self.inline(text, state.env)\<close>: it receives the
  dict \<^verbatim>\<open>env\<close>, which it may update, and returns the inline tokens.
\<close>

type_synonym inline_parser = "pystr \<Rightarrow> env \<Rightarrow> (error + token list) \<times> env"

type_synonym hook = "block_state \<Rightarrow> (error + unit) \<times> block_state"

text \<open>
  The result of a run is what the renderer returns, or the list of tokens when there is
  no renderer; the hooks that run after rendering map a result to a result.
\<close>

datatype result = Tokens "token list" | Str pystr | Num int | Container "result list"

type_synonym render_hook = "result \<Rightarrow> block_state \<Rightarrow> (error + result) \<times> block_state"

text \<open>
  The renderer is called as \<^verbatim>\<open>self.renderer(data, state)\<close>, where \<^verbatim>\<open>data\<close> is the
  generator \<^verbatim>\<open>_iter_render\<close> returned, not yet started. A renderer is a function from
  the state to what it does next: it returns a result, it raises, or it asks the
  generator for its next token (\<open>Next\<close>, with the state as the renderer has left it) and
  goes on with what \<^verbatim>\<open>next(data)\<close> gives and with the state the generator has left.
  \<^verbatim>\<open>next(data)\<close> gives a token, or nothing (\<open>Inr None\<close>) when the generator is
  exhausted, or the exception the inline parser has raised inside the generator
  (\<open>Inl\<close>): the renderer is the caller of \<^verbatim>\<open>next\<close>, so it is the renderer that
  handles this exception or lets it go through (by raising it in its turn).
\<close>

datatype rendering =
    Return result block_state
  | Throw error block_state
  | Next block_state "error + token option \<Rightarrow> block_state \<Rightarrow> rendering"

type_synonym renderer = "block_state \<Rightarrow> rendering"

text \<open>
  The block parser gives the class of the state (\<^verbatim>\<open>state_cls()\<close> makes a fresh state)
  and \<^verbatim>\<open>parse(state)\<close>. The method \<^verbatim>\<open>process\<close> of the state is defined with that
  class, so it stands here too.
\<close>

record block_parser =
  state_cls :: block_state
  process :: "pystr \<Rightarrow> block_state \<Rightarrow> (error + unit) \<times> block_state"
  block_parse :: "block_state \<Rightarrow> (error + unit) \<times> block_state"

text \<open>
  The instance, as \<^verbatim>\<open>__init__\<close> and the plugins have left it. A hook is registered by
  appending it to one of the three lists, so the order of a list is the order of
  registration. The hooks are called with the instance as their first argument; the
  instance does not change during a run, and the hooks of the model are functions of
  the state alone.
\<close>

record markdown =
  renderer :: "renderer option"
  block :: block_parser
  inline :: inline_parser
  before_parse_hooks :: "hook list"
  before_render_hooks :: "hook list"
  after_render_hooks :: "render_hook list"

subsection \<open>Calls\<close>

definition invoke ::
  "event \<Rightarrow> (block_state \<Rightarrow> (error + 'a) \<times> block_state) \<Rightarrow> world \<Rightarrow> (error + 'a) \<times> world" where
  "invoke ev f w =
     (case f (st w) of
        (Inr x, state) \<Rightarrow> (Inr x, \<lparr>st = state, log = log w @ [ev]\<rparr>)
      | (Inl err, state) \<Rightarrow> (Inl err, \<lparr>st = state, log = log w @ [ev, Raised err]\<rparr>))"

definition call_inline ::
  "inline_parser \<Rightarrow> pystr \<Rightarrow> world \<Rightarrow> (error + token list) \<times> world" where
  "call_inline inl s w =
     invoke (Inline s)
       (\<lambda>state. case inl s (env state) of (r, e) \<Rightarrow> (r, state\<lparr>env := e\<rparr>)) w"

subsection \<open>The tree resolver \<^verbatim>\<open>_iter_render\<close>\<close>

text \<open>
  \<^verbatim>\<open>
    def _iter_render(self, tokens, state):
        for tok in tokens:
            if 'children' in tok:
                children = self._iter_render(tok['children'], state)
                tok['children'] = list(children)
            elif 'text' in tok:
                text = tok.pop('text')
                # process inline text
                tok['children'] = self.inline(text.strip(), state.env)
            yield tok
  \<close>
  \<open>iter_render_tok\<close> is the body of the loop before \<^verbatim>\<open>yield\<close>, and \<open>iter_render\<close> is
  the generator run to its end, as \<^verbatim>\<open>list\<close> runs it. The tokens are mutated in place,
  so both return the tokens as the run has left them, also when the inline parser has
  raised: then the tokens before the failing one are resolved, the failing token has
  lost its \<^verbatim>\<open>'text'\<close> (it was popped) and has no \<^verbatim>\<open>'children'\<close>, and the tokens after
  it are untouched. The first component is the exception, if any. The recursion is as
  deep as the tree; the recursion limit of the interpreter is not modelled.
\<close>

fun iter_render_tok :: "inline_parser \<Rightarrow> token \<Rightarrow> world \<Rightarrow> error option \<times> token \<times> world"
and iter_render :: "inline_parser \<Rightarrow> token list \<Rightarrow> world \<Rightarrow> error option \<times> token list \<times> world"
where
  "iter_render_tok inl (Token ty at (Some cs) tx) w =
     (case iter_render inl cs w of
        (None, cs', w') \<Rightarrow> (None, Token ty at (Some cs') tx, w')
      | (Some err, cs', w') \<Rightarrow> (Some err, Token ty at (Some cs') tx, w'))"
| "iter_render_tok inl (Token ty at None (Some t)) w =
     (case call_inline inl (strip t) w of
        (Inr toks, w') \<Rightarrow> (None, Token ty at (Some toks) None, w')
      | (Inl err, w') \<Rightarrow> (Some err, Token ty at None None, w'))"
| "iter_render_tok inl (Token ty at None None) w = (None, Token ty at None None, w)"
| "iter_render inl [] w = (None, [], w)"
| "iter_render inl (tok # toks) w =
     (case iter_render_tok inl tok w of
        (Some err, tok', w') \<Rightarrow> (Some err, tok' # toks, w')
      | (None, tok', w') \<Rightarrow>
          (case iter_render inl toks (w'\<lparr>log := log w' @ [Yield (tok_type tok')]\<rparr>) of
             (r, toks', w'') \<Rightarrow> (r, tok' # toks', w'')))"

text \<open>
  The generator over \<^verbatim>\<open>state.tokens\<close>, one \<^verbatim>\<open>next\<close> at a time, for the renderer that
  pulls from it: \<open>Running i\<close> before the token at index \<open>i\<close>, \<open>Exhausted\<close> once it has
  stopped or raised. The tokens are those of the list as it is at the time of the
  \<^verbatim>\<open>next\<close>; the resolved token takes the place of the one it comes from.
\<close>

datatype gen = Running nat | Exhausted

definition set_token :: "nat \<Rightarrow> token \<Rightarrow> world \<Rightarrow> world" where
  "set_token i tok w = w\<lparr>st := (st w)\<lparr>tokens := (tokens (st w))[i := tok]\<rparr>\<rparr>"

definition gen_next ::
  "inline_parser \<Rightarrow> gen \<Rightarrow> world \<Rightarrow> (error + token option) \<times> gen \<times> world" where
  "gen_next inl g w =
     (case g of
        Exhausted \<Rightarrow> (Inr None, Exhausted, w)
      | Running i \<Rightarrow>
          if i < length (tokens (st w)) then
            (case iter_render_tok inl (tokens (st w) ! i) w of
               (None, tok', w') \<Rightarrow>
                 (Inr (Some tok'), Running (Suc i),
                  set_token i tok' (w'\<lparr>log := log w' @ [Yield (tok_type tok')]\<rparr>))
             | (Some err, tok', w') \<Rightarrow> (Inl err, Exhausted, set_token i tok' w'))
          else (Inr None, Exhausted, w))"

text \<open>\<^verbatim>\<open>list(data)\<close>: the generator over \<^verbatim>\<open>state.tokens\<close>, run to its end.\<close>

definition list_data :: "inline_parser \<Rightarrow> world \<Rightarrow> (error + result) \<times> world" where
  "list_data inl w =
     (case iter_render inl (tokens (st w)) w of
        (None, toks, w') \<Rightarrow> (Inr (Tokens toks), w'\<lparr>st := (st w')\<lparr>tokens := toks\<rparr>\<rparr>)
      | (Some err, toks, w') \<Rightarrow> (Inl err, w'\<lparr>st := (st w')\<lparr>tokens := toks\<rparr>\<rparr>))"

text \<open>
  The renderer at work on the generator. Nothing stands between the renderer and the
  generator: what \<open>gen_next\<close> gives, a token or an exception, goes to the renderer.
\<close>

primrec run_renderer ::
  "inline_parser \<Rightarrow> rendering \<Rightarrow> gen \<Rightarrow> event list \<Rightarrow> (error + result) \<times> world" where
  "run_renderer inl (Return r state) g lg = (Inr r, \<lparr>st = state, log = lg\<rparr>)"
| "run_renderer inl (Throw err state) g lg = (Inl err, \<lparr>st = state, log = lg @ [Raised err]\<rparr>)"
| "run_renderer inl (Next state k) g lg =
     (case gen_next inl g \<lparr>st = state, log = lg\<rparr> of
        (a, g', w') \<Rightarrow> run_renderer inl (k a (st w')) g' (log w'))"

text \<open>
  \<^verbatim>\<open>
    def render_state(self, state: BlockState):
        data = self._iter_render(state.tokens, state)
        if self.renderer:
            return self.renderer(data, state)
        return list(data)
  \<close>
\<close>

definition render_state :: "markdown \<Rightarrow> world \<Rightarrow> (error + result) \<times> world" where
  "render_state md w =
     (case renderer md of
        Some r \<Rightarrow> run_renderer (inline md) (r (st w)) (Running 0) (log w @ [Render])
      | None \<Rightarrow> list_data (inline md) w)"

subsection \<open>\<^verbatim>\<open>parse\<close>, \<^verbatim>\<open>read\<close> and \<^verbatim>\<open>__call__\<close>\<close>

text \<open>
  The two loops \<^verbatim>\<open>for hook in self.before_parse_hooks: hook(self, state)\<close> and
  \<^verbatim>\<open>for hook in self.before_render_hooks: hook(self, state)\<close>; \<open>i\<close> is the index of the
  first hook of the list, for the log.
\<close>

fun run_hooks :: "(nat \<Rightarrow> event) \<Rightarrow> nat \<Rightarrow> hook list \<Rightarrow> world \<Rightarrow> (error + unit) \<times> world" where
  "run_hooks ev i [] w = (Inr (), w)"
| "run_hooks ev i (hook # hooks) w =
     (case invoke (ev i) hook w of
        (Inl err, w') \<Rightarrow> (Inl err, w')
      | (Inr u, w') \<Rightarrow> run_hooks ev (Suc i) hooks w')"

text \<open>
  \<^verbatim>\<open>for hook in self.after_render_hooks: result = hook(self, result, state)\<close>
\<close>

fun run_after_render_hooks ::
  "nat \<Rightarrow> render_hook list \<Rightarrow> result \<Rightarrow> world \<Rightarrow> (error + result) \<times> world" where
  "run_after_render_hooks i [] result w = (Inr result, w)"
| "run_after_render_hooks i (hook # hooks) result w =
     (case invoke (AfterRenderHook i) (hook result) w of
        (Inl err, w') \<Rightarrow> (Inl err, w')
      | (Inr result', w') \<Rightarrow> run_after_render_hooks (Suc i) hooks result' w')"

text \<open>
  The normalisation of the line separators at the head of \<^verbatim>\<open>parse\<close>:
  \<^verbatim>\<open>
        s = s.replace('\r\n', '\n')
        s = s.replace('\r', '\n')
        if not s.endswith('\n'):
            s += '\n'
  \<close>
\<close>

definition normalize_lines :: "pystr \<Rightarrow> pystr" where
  "normalize_lines s =
     (let s = replace [CR, LF] [LF] s;
          s = replace [CR] [LF] s
      in if \<not> endswith s [LF] then s @ [LF] else s)"

text \<open>
  \<^verbatim>\<open>
    def parse(self, s: str, state: Optional[BlockState]=None):
        if state is None:
            state = self.block.state_cls()
        # normalize line separator
        ...
        state.process(s)
        for hook in self.before_parse_hooks:
            hook(self, state)
        self.block.parse(state)
        for hook in self.before_render_hooks:
            hook(self, state)
        result = self.render_state(state)
        for hook in self.after_render_hooks:
            result = hook(self, result, state)
        return result, state
  \<close>
  The model returns the outcome (the exception, or the result) and the world at the
  end: its state is the state \<^verbatim>\<open>parse\<close> returns beside the result, and the state a
  caller who supplied one finds after an exception; its log starts empty.
\<close>

definition parse :: "markdown \<Rightarrow> pystr \<Rightarrow> block_state option \<Rightarrow> (error + result) \<times> world" where
  "parse md s state =
     (let state = (case state of None \<Rightarrow> state_cls (block md) | Some state \<Rightarrow> state);
          s = normalize_lines s
      in case invoke (Process s) (process (block md) s) \<lparr>st = state, log = []\<rparr> of
           (Inl err, w) \<Rightarrow> (Inl err, w)
         | (Inr u, w) \<Rightarrow>
      (case run_hooks BeforeParseHook 0 (before_parse_hooks md) w of
           (Inl err, w) \<Rightarrow> (Inl err, w)
         | (Inr u, w) \<Rightarrow>
      (case invoke BlockParse (block_parse (block md)) w of
           (Inl err, w) \<Rightarrow> (Inl err, w)
         | (Inr u, w) \<Rightarrow>
      (case run_hooks BeforeRenderHook 0 (before_render_hooks md) w of
           (Inl err, w) \<Rightarrow> (Inl err, w)
         | (Inr u, w) \<Rightarrow>
      (case render_state md w of
           (Inl err, w) \<Rightarrow> (Inl err, w)
         | (Inr result, w) \<Rightarrow>
      run_after_render_hooks 0 (after_render_hooks md) result w)))))"

text \<open>
  \<^verbatim>\<open>
    def read(self, filepath, encoding='utf-8', state=None):
        if state is None:
            state = self.block.state_cls()
        state.env['__file__'] = filepath
        with open(filepath, 'rb') as f:
            s = f.read()
        s = s.decode(encoding)
        return self.parse(s, state)
  \<close>
  The file system (what \<^verbatim>\<open>open\<close> and \<^verbatim>\<open>read\<close> give for a path) and the codecs (what
  \<^verbatim>\<open>decode\<close> gives for an encoding and the bytes) are parameters.
\<close>

type_synonym bytes = "nat list"

type_synonym filesystem = "pystr \<Rightarrow> error + bytes"

type_synonym codecs = "pystr \<Rightarrow> bytes \<Rightarrow> error + pystr"

definition read ::
  "markdown \<Rightarrow> filesystem \<Rightarrow> codecs \<Rightarrow> pystr \<Rightarrow> pystr \<Rightarrow> block_state option
     \<Rightarrow> (error + result) \<times> world" where
  "read md fs decode filepath encoding state =
     (let state = (case state of None \<Rightarrow> state_cls (block md) | Some state \<Rightarrow> state);
          state = state\<lparr>env := (env state)(''__file__'' \<mapsto> PyStr filepath)\<rparr>
      in case fs filepath of
           Inl err \<Rightarrow> (Inl err, \<lparr>st = state, log = []\<rparr>)
         | Inr b \<Rightarrow>
             (case decode encoding b of
                Inl err \<Rightarrow> (Inl err, \<lparr>st = state, log = []\<rparr>)
              | Inr s \<Rightarrow> parse md s (Some state)))"

text \<open>
  \<^verbatim>\<open>
    def __call__(self, s: str):
        if s is None:
            s = '\n'
        return self.parse(s)[0]
  \<close>
\<close>

definition call :: "markdown \<Rightarrow> pystr option \<Rightarrow> error + result" where
  "call md s = (let s = (case s of None \<Rightarrow> [LF] | Some s \<Rightarrow> s) in fst (parse md s None))"

section \<open>Notions for the properties\<close>

subsection \<open>The order of the calls\<close>

text \<open>
  What resolving a token appends to the log when no call raises: the log of its
  children and then the token itself; for a token that has only a text, the call of the
  inline parser on the stripped text and then the token; for a token that has neither,
  the token alone.
\<close>

fun postorder :: "token \<Rightarrow> event list" where
  "postorder (Token ty at (Some cs) tx) = concat (map postorder cs) @ [Yield ty]"
| "postorder (Token ty at None (Some t)) = [Inline (strip t), Yield ty]"
| "postorder (Token ty at None None) = [Yield ty]"

text \<open>
  The entries the resolver and the renderer write into the log: the call of the
  renderer, the calls of the inline parser, the tokens yielded, and the exceptions
  raised by the inline parser or by the renderer.
\<close>

fun render_event :: "event \<Rightarrow> bool" where
  "render_event Render = True"
| "render_event (Inline s) = True"
| "render_event (Yield ty) = True"
| "render_event (Raised err) = True"
| "render_event ev = False"

text \<open>
  The log of a run of \<^verbatim>\<open>parse\<close> in which every call returns, given the entries
  \<open>evs\<close> of the resolver and the renderer: the stages in the order in which \<^verbatim>\<open>parse\<close>
  goes through them, and the hooks of every list in the order of the list.
\<close>

definition pipeline :: "markdown \<Rightarrow> pystr \<Rightarrow> event list \<Rightarrow> event list" where
  "pipeline md s evs =
     Process (normalize_lines s) # map BeforeParseHook [0..<length (before_parse_hooks md)] @
     BlockParse # map BeforeRenderHook [0..<length (before_render_hooks md)] @
     evs @ map AfterRenderHook [0..<length (after_render_hooks md)]"

subsection \<open>The shape of a tree of tokens\<close>

text \<open>
  \<open>resolved\<close>: the token has \<^verbatim>\<open>'children'\<close>, it has no \<^verbatim>\<open>'text'\<close>, and so has every
  token below it. \<open>at_most_one\<close>: no token of the tree has both \<^verbatim>\<open>'children'\<close> and
  \<^verbatim>\<open>'text'\<close>.
\<close>

fun resolved :: "token \<Rightarrow> bool" where
  "resolved (Token ty at (Some cs) None) = list_all resolved cs"
| "resolved (Token ty at ch tx) = False"

fun at_most_one :: "token \<Rightarrow> bool" where
  "at_most_one (Token ty at (Some cs) tx) = (tx = None \<and> list_all at_most_one cs)"
| "at_most_one (Token ty at None tx) = True"

text \<open>
  \<open>resolved_from tok tok'\<close>: what the resolver makes of \<open>tok\<close>. The type and the other
  entries are those of \<open>tok\<close>. A token with children keeps them, each resolved in its
  turn; a token with a text has lost it and has children (those the inline parser
  returned, which the resolver does not visit); a token with neither is as it was.
\<close>

fun resolved_from :: "token \<Rightarrow> token \<Rightarrow> bool" where
  "resolved_from (Token ty at (Some cs) tx) tok' =
     (tok_type tok' = ty \<and> tok_attrs tok' = at \<and> tok_text tok' = None \<and>
      (case tok_children tok' of Some cs' \<Rightarrow> list_all2 resolved_from cs cs' | None \<Rightarrow> False))"
| "resolved_from (Token ty at None (Some t)) tok' =
     (tok_type tok' = ty \<and> tok_attrs tok' = at \<and> tok_text tok' = None \<and>
      tok_children tok' \<noteq> None)"
| "resolved_from (Token ty at None None) tok' = (tok' = Token ty at None None)"

text \<open>
  \<open>resolution tok tok'\<close>: the same for any token, also one that has both \<^verbatim>\<open>'children'\<close>
  and \<^verbatim>\<open>'text'\<close> (it keeps its text): the children of \<open>tok'\<close> are the resolutions of
  the children of \<open>tok\<close>, one by one and in the same order, a token that had only a
  text has children and no text, and a token with neither is as it was.
\<close>

fun resolution :: "token \<Rightarrow> token \<Rightarrow> bool" where
  "resolution (Token ty at (Some cs) tx) tok' =
     (tok_type tok' = ty \<and> tok_attrs tok' = at \<and> tok_text tok' = tx \<and>
      (case tok_children tok' of Some cs' \<Rightarrow> list_all2 resolution cs cs' | None \<Rightarrow> False))"
| "resolution (Token ty at None (Some t)) tok' =
     (tok_type tok' = ty \<and> tok_attrs tok' = at \<and> tok_text tok' = None \<and>
      tok_children tok' \<noteq> None)"
| "resolution (Token ty at None None) tok' = (tok' = Token ty at None None)"

subsection \<open>The chains of the hooks\<close>

text \<open>
  One step of a loop \<^verbatim>\<open>for hook in hooks: hook(self, state)\<close>: the hook is called in
  the state the step before it has left; after an exception no hook is called and the
  state stays as the failing call has left it.
\<close>

definition hook_step ::
  "(error + unit) \<times> block_state \<Rightarrow> hook \<Rightarrow> (error + unit) \<times> block_state" where
  "hook_step acc hook =
     (case acc of
        (Inr u, state) \<Rightarrow> hook state
      | (Inl err, state) \<Rightarrow> (Inl err, state))"

text \<open>
  What \<^verbatim>\<open>parse\<close> does before it renders, as a chain of such steps and with no log:
  \<^verbatim>\<open>state.process\<close> on the normalised text, then the hooks of
  \<^verbatim>\<open>before_parse_hooks\<close> from the first to the last, then \<^verbatim>\<open>self.block.parse\<close>, then
  the hooks of \<^verbatim>\<open>before_render_hooks\<close> from the first to the last. The outcome is the
  first exception, if any, with the state the failing call has left.
\<close>

definition before_render :: "markdown \<Rightarrow> pystr \<Rightarrow> block_state option \<Rightarrow> (error + unit) \<times> block_state" where
  "before_render md s state =
     (let state = (case state of None \<Rightarrow> state_cls (block md) | Some state \<Rightarrow> state);
          loaded = process (block md) (normalize_lines s) state;
          hooked = foldl hook_step loaded (before_parse_hooks md);
          parsed = hook_step hooked (block_parse (block md))
      in foldl hook_step parsed (before_render_hooks md))"

text \<open>
  One step of the chain \<^verbatim>\<open>result = hook(self, result, state)\<close>: the hook receives
  the result of the step before it; after an exception no hook is called.
\<close>

definition chain_step ::
  "(error + result) \<times> block_state \<Rightarrow> render_hook \<Rightarrow> (error + result) \<times> block_state" where
  "chain_step acc hook =
     (case acc of
        (Inr result, state) \<Rightarrow> hook result state
      | (Inl err, state) \<Rightarrow> (Inl err, state))"

subsection \<open>The outcomes of a renderer\<close>


subsection \<open>An instance\<close>

text \<open>
  Modelled from the spec: \<^verbatim>\<open>BlockState.process\<close> is defined in \<^verbatim>\<open>core.py\<close>, which is
  not among the sources. The specification says of the Block Engine that it exposes ``a
  \<^verbatim>\<open>parse(state)\<close> operation that mutates \<^verbatim>\<open>state.tokens\<close> in place from whatever raw
  source was previously loaded into \<^verbatim>\<open>state\<close> via a \<^verbatim>\<open>process(source: string)\<close>
  operation'': \<open>process_spec\<close> loads the source and leaves the tokens alone.
\<close>

definition process_spec :: "pystr \<Rightarrow> block_state \<Rightarrow> (error + unit) \<times> block_state" where
  "process_spec s state = (Inr (), state\<lparr>src := s\<rparr>)"

text \<open>
  A small instance with no renderer. Its block parser makes one paragraph of the whole
  source, followed by a thematic break, a token that has neither \<^verbatim>\<open>'children'\<close> nor
  \<^verbatim>\<open>'text'\<close>. Its inline parser returns one token that holds the text. Of its hooks,
  \<open>count_tokens\<close> records in \<^verbatim>\<open>env\<close> how many tokens the state holds when it is
  called, \<open>add_token\<close> appends a token, \<open>failing_hook\<close> raises, \<open>wrap_result\<close> wraps the
  result in a container and \<open>count_elements\<close> counts the elements of its argument.
\<close>

definition fresh_state :: block_state where
  "fresh_state = \<lparr>src = [], tokens = [], env = Map.empty\<rparr>"

definition start :: world where
  "start = \<lparr>st = fresh_state, log = []\<rparr>"

definition paragraph_parse :: "block_state \<Rightarrow> (error + unit) \<times> block_state" where
  "paragraph_parse state =
     (Inr (), state\<lparr>tokens := tokens state @
        [Token ''paragraph'' [] None (Some (src state)), Token ''thematic_break'' [] None None]\<rparr>)"

definition text_inline :: inline_parser where
  "text_inline s e = (Inr [Token ''text'' [(''raw'', PyStr s)] None None], e)"

definition count_tokens :: hook where
  "count_tokens state =
     (Inr (), state\<lparr>env := (env state)(''seen'' \<mapsto> PyInt (int (length (tokens state))))\<rparr>)"

definition add_token :: hook where
  "add_token state =
     (Inr (), state\<lparr>tokens := tokens state @ [Token ''block_text'' [] None (Some (pystr ''extra''))]\<rparr>)"

definition failing_hook :: hook where
  "failing_hook state = (Inl (Exception ''boom''), state)"

definition wrap_result :: render_hook where
  "wrap_result r state = (Inr (Container [r]), state)"

definition count_elements :: render_hook where
  "count_elements r state =
     (Inr (Num (case r of Container rs \<Rightarrow> int (length rs) | Tokens toks \<Rightarrow> int (length toks)
        | Str s \<Rightarrow> int (length s) | Num n \<Rightarrow> 0)), state)"

definition demo :: markdown where
  "demo = \<lparr>renderer = None,
     block = \<lparr>state_cls = fresh_state, process = process_spec, block_parse = paragraph_parse\<rparr>,
     inline = text_inline,
     before_parse_hooks = [count_tokens, add_token],
     before_render_hooks = [],
     after_render_hooks = [wrap_result, count_elements]\<rparr>"

definition demo_failing :: markdown where
  "demo_failing = demo\<lparr>before_parse_hooks := [count_tokens, failing_hook, add_token]\<rparr>"







text \<open>
  A file system with no file, one where every path holds the single byte 255, and a
  codec that accepts the bytes below 128.
\<close>

definition no_files :: filesystem where
  "no_files path = Inl IOError"

definition one_file :: filesystem where
  "one_file path = Inr [255]"

definition ascii :: codecs where
  "ascii encoding b = (if list_all (\<lambda>c. c < 128) b then Inr b else Inl DecodeError)"

text \<open>The worlds in which the runs of these instances on \<^verbatim>\<open>"hi"\<close> end.\<close>

definition demo_end :: world where
  "demo_end =
     \<lparr>st = \<lparr>src = pystr ''hi'' @ [LF],
        tokens =
          [Token ''block_text'' [] (Some [Token ''text'' [(''raw'', PyStr (pystr ''extra''))] None None]) None,
           Token ''paragraph'' [] (Some [Token ''text'' [(''raw'', PyStr (pystr ''hi''))] None None]) None,
           Token ''thematic_break'' [] None None],
        env = [''seen'' \<mapsto> PyInt 0]\<rparr>,
      log = [Process (pystr ''hi'' @ [LF]), BeforeParseHook 0, BeforeParseHook 1, BlockParse,
        Inline (pystr ''extra''), Yield ''block_text'', Inline (pystr ''hi''), Yield ''paragraph'',
        Yield ''thematic_break'', AfterRenderHook 0, AfterRenderHook 1]\<rparr>"

definition failing_end :: world where
  "failing_end =
     \<lparr>st = \<lparr>src = pystr ''hi'' @ [LF], tokens = [], env = [''seen'' \<mapsto> PyInt 0]\<rparr>,
      log = [Process (pystr ''hi'' @ [LF]), BeforeParseHook 0, BeforeParseHook 1,
        Raised (Exception ''boom'')]\<rparr>"




text \<open>Two trees: one to resolve, one that is resolved already.\<close>

definition sample_tree :: "token list" where
  "sample_tree =
     [Token ''list'' [] (Some [Token ''paragraph'' [] None (Some (pystr '' hi ''))]) None,
      Token ''thematic_break'' [] None None]"

definition resolved_tree :: "token list" where
  "resolved_tree =
     [Token ''list'' []
        (Some [Token ''paragraph'' [] (Some [Token ''text'' [(''raw'', PyStr [104, 105])] (Some []) None]) None])
        None]"

section \<open>Properties\<close>

subsection \<open>The normalisation of the line separators\<close>

lemma replace_CR_no_CR: "CR \<notin> set (replace [CR] [LF] s)"
  by (induction s) (auto simp: CR_def LF_def)

lemma endswith_LF: "endswith s [LF] \<longleftrightarrow> s \<noteq> [] \<and> last s = LF"
proof (cases s rule: rev_cases)
  case Nil
  then show ?thesis by (simp add: endswith_def)
next
  case (snoc ys y)
  then show ?thesis by (auto simp: endswith_def)
qed

lemma replace_last:
  "new \<noteq> [] \<Longrightarrow> last new = x \<Longrightarrow> old \<noteq> [] \<Longrightarrow> s \<noteq> [] \<Longrightarrow> last s = x \<Longrightarrow>
     replace old new s \<noteq> [] \<and> last (replace old new s) = x"
proof (induction old new s rule: replace.induct)
  case (1 old new)
  then show ?case by simp
next
  case (2 old new c cs)
  show ?case
  proof (cases "take (length old) (c # cs) = old")
    case True
    with 2 have eq: "replace old new (c # cs) = new @ replace old new (drop (length old) (c # cs))"
      by simp
    show ?thesis
    proof (cases "drop (length old) (c # cs) = []")
      case True
      moreover have "replace old new [] = []" using "2.prems" by simp
      ultimately show ?thesis using eq "2.prems" by (simp del: replace.simps(2))
    next
      case False
      then have "last (drop (length old) (c # cs)) = x"
        using "2.prems" by (metis last_drop drop_eq_Nil not_le_imp_less)
      with 2 True False have "replace old new (drop (length old) (c # cs)) \<noteq> [] \<and>
          last (replace old new (drop (length old) (c # cs))) = x"
        by blast
      with eq show ?thesis by (simp del: replace.simps(2))
    qed
  next
    case False
    with 2 have eq: "replace old new (c # cs) = c # replace old new cs"
      by simp
    show ?thesis
    proof (cases cs)
      case Nil
      moreover have "replace old new [] = []" using "2.prems" by simp
      ultimately show ?thesis using eq "2.prems" by (simp del: replace.simps(2))
    next
      case (Cons d ds)
      with 2 False have "replace old new cs \<noteq> [] \<and> last (replace old new cs) = x"
        by simp
      with eq show ?thesis by (simp del: replace.simps(2))
    qed
  qed
qed

lemma normalize_lines_no_CR: "CR \<notin> set (normalize_lines s)"
  using replace_CR_no_CR by (auto simp: normalize_lines_def Let_def CR_def LF_def)

lemma normalize_lines_endswith: "endswith (normalize_lines s) [LF]"
  by (simp add: normalize_lines_def Let_def endswith_LF)

lemma normalize_lines_keep:
  assumes "endswith s [LF]"
  shows "normalize_lines s = replace [CR] [LF] (replace [CR, LF] [LF] s)"
proof -
  from assms have s: "s \<noteq> []" "last s = LF"
    by (simp_all add: endswith_LF)
  have 1: "replace [CR, LF] [LF] s \<noteq> [] \<and> last (replace [CR, LF] [LF] s) = LF"
    using s by (intro replace_last) simp_all
  have "replace [CR] [LF] (replace [CR, LF] [LF] s) \<noteq> [] \<and>
      last (replace [CR] [LF] (replace [CR, LF] [LF] s)) = LF"
    using 1 by (intro replace_last) simp_all
  then show ?thesis
    by (simp add: normalize_lines_def Let_def endswith_LF)
qed

lemma normalize_lines_empty: "normalize_lines [] = [LF]"
  by (simp add: normalize_lines_def endswith_def)

lemma normalize_lines_newline: "normalize_lines [LF] = [LF]"
  by (simp add: normalize_lines_def endswith_def CR_def LF_def)

subsection \<open>Stripping\<close>


subsection \<open>The log of the calls\<close>

lemma invoke_log:
  "invoke ev f w = (r, w') \<Longrightarrow>
     log w' = log w @ ev # (case r of Inl err \<Rightarrow> [Raised err] | Inr x \<Rightarrow> [])"
  by (auto simp: invoke_def split: prod.splits sum.splits)

lemma run_hooks_log:
  "run_hooks ev i hooks w = (r, w') \<Longrightarrow>
     (case r of
        Inr u \<Rightarrow> log w' = log w @ map ev [i..<i + length hooks]
      | Inl err \<Rightarrow> \<exists>k<length hooks. log w' = log w @ map ev [i..<Suc (i + k)] @ [Raised err])"
proof (induction ev i hooks w rule: run_hooks.induct)
  case (1 ev i w)
  then show ?case by auto
next
  case (2 ev i hook hooks w)
  obtain r1 w1 where inv: "invoke (ev i) hook w = (r1, w1)" by (cases "invoke (ev i) hook w")
  note lg = invoke_log [OF inv]
  show ?case
  proof (cases r1)
    case (Inl err)
    with inv 2(2) lg have "r = Inl err" "log w' = log w @ map ev [i..<Suc (i + 0)] @ [Raised err]"
      by auto
    then show ?thesis by (auto simp del: upt_Suc)
  next
    case (Inr u)
    with inv 2(2) have rest: "run_hooks ev (Suc i) hooks w1 = (r, w')" by simp
    note ih = 2(1) [OF inv [symmetric, unfolded Inr] refl rest]
    show ?thesis
    proof (cases r)
      case (Inr u')
      with ih lg \<open>r1 = Inr u\<close> show ?thesis by (simp add: upt_conv_Cons del: upt_Suc)
    next
      case (Inl err)
      with ih obtain k where "k < length hooks"
        "log w' = log w1 @ map ev [Suc i..<Suc (Suc i + k)] @ [Raised err]" by auto
      with lg \<open>r1 = Inr u\<close> have "Suc k < length (hook # hooks)"
        "log w' = log w @ map ev [i..<Suc (i + Suc k)] @ [Raised err]"
        by (simp_all add: upt_conv_Cons del: upt_Suc)
      with Inl show ?thesis by (auto simp del: upt_Suc)
    qed
  qed
qed

lemma run_after_render_hooks_log:
  "run_after_render_hooks i hooks x w = (r, w') \<Longrightarrow>
     (case r of
        Inr y \<Rightarrow> log w' = log w @ map AfterRenderHook [i..<i + length hooks]
      | Inl err \<Rightarrow>
          \<exists>k<length hooks. log w' = log w @ map AfterRenderHook [i..<Suc (i + k)] @ [Raised err])"
proof (induction i hooks x w rule: run_after_render_hooks.induct)
  case (1 i x w)
  then show ?case by auto
next
  case (2 i hook hooks x w)
  obtain r1 w1 where inv: "invoke (AfterRenderHook i) (hook x) w = (r1, w1)"
    by (cases "invoke (AfterRenderHook i) (hook x) w")
  note lg = invoke_log [OF inv]
  show ?case
  proof (cases r1)
    case (Inl err)
    with inv 2(2) lg have "r = Inl err"
      "log w' = log w @ map AfterRenderHook [i..<Suc (i + 0)] @ [Raised err]"
      by auto
    then show ?thesis by (auto simp del: upt_Suc)
  next
    case (Inr y)
    with inv 2(2) have rest: "run_after_render_hooks (Suc i) hooks y w1 = (r, w')" by simp
    note ih = 2(1) [OF inv [symmetric, unfolded Inr] refl rest]
    show ?thesis
    proof (cases r)
      case (Inr z)
      with ih lg \<open>r1 = Inr y\<close> show ?thesis by (simp add: upt_conv_Cons del: upt_Suc)
    next
      case (Inl err)
      with ih obtain k where "k < length hooks"
        "log w' = log w1 @ map AfterRenderHook [Suc i..<Suc (Suc i + k)] @ [Raised err]" by auto
      with lg \<open>r1 = Inr y\<close> have "Suc k < length (hook # hooks)"
        "log w' = log w @ map AfterRenderHook [i..<Suc (i + Suc k)] @ [Raised err]"
        by (simp_all add: upt_conv_Cons del: upt_Suc)
      with Inl show ?thesis by (auto simp del: upt_Suc)
    qed
  qed
qed

lemma call_inline_log:
  "call_inline inl s w = (r, w') \<Longrightarrow>
     log w' = log w @ Inline s # (case r of Inl err \<Rightarrow> [Raised err] | Inr x \<Rightarrow> [])"
  unfolding call_inline_def by (rule invoke_log)

subsection \<open>The log of the resolver\<close>

lemma iter_render_postorder:
  "iter_render_tok inl tok w = (None, tok', w') \<Longrightarrow>
     log w' @ [Yield (tok_type tok)] = log w @ postorder tok \<and> tok_type tok' = tok_type tok"
  "iter_render inl toks w = (None, toks', w') \<Longrightarrow>
     log w' = log w @ concat (map postorder toks) \<and> map tok_type toks' = map tok_type toks"
proof (induction inl tok w and inl toks w arbitrary: tok' w' and toks' w'
    rule: iter_render_tok_iter_render.induct)
  case (1 inl ty at cs tx w)
  then show ?case by (auto split: prod.splits option.splits)
next
  case (2 inl ty at t w)
  then show ?case by (auto split: prod.splits sum.splits dest: call_inline_log)
next
  case (3 inl ty at w)
  then show ?case by auto
next
  case (4 inl w)
  then show ?case by simp
next
  case (5 inl tok toks w)
  from 5(3) obtain t1 w1 where
    a: "iter_render_tok inl tok w = (None, t1, w1)"
    by (auto split: prod.splits option.splits)
  with 5(3) obtain ts where
    b: "iter_render inl toks (w1\<lparr>log := log w1 @ [Yield (tok_type t1)]\<rparr>) = (None, ts, w')"
    and c: "toks' = t1 # ts"
    by (auto split: prod.splits option.splits)
  from 5(1) [OF a] have h1: "log w1 @ [Yield (tok_type tok)] = log w @ postorder tok"
    "tok_type t1 = tok_type tok" by simp_all
  from 5(2) [OF a [symmetric] refl refl b]
  have h2: "log w' = (log w1 @ [Yield (tok_type t1)]) @ concat (map postorder toks)"
    "map tok_type ts = map tok_type toks" by simp_all
  from h1 h2 c show ?case by simp
qed

lemma postorder_render_events: "list_all render_event (postorder tok)"
  by (induction tok rule: postorder.induct) (auto simp: list_all_iff)

lemma iter_render_failure:
  "iter_render_tok inl tok w = (Some err, tok', w') \<Longrightarrow>
     \<exists>evs. log w' = log w @ evs @ [Raised err] \<and> list_all render_event evs"
  "iter_render inl toks w = (Some err, toks', w') \<Longrightarrow>
     \<exists>evs. log w' = log w @ evs @ [Raised err] \<and> list_all render_event evs"
proof (induction inl tok w and inl toks w arbitrary: tok' w' and toks' w'
    rule: iter_render_tok_iter_render.induct)
  case (1 inl ty at cs tx w)
  then show ?case by (auto split: prod.splits option.splits)
next
  case (2 inl ty at t w)
  from 2 obtain w1 where "call_inline inl (strip t) w = (Inl err, w1)" "w' = w1"
    by (auto split: prod.splits sum.splits)
  from call_inline_log [OF this(1)] this(2)
  have "log w' = log w @ [Inline (strip t)] @ [Raised err]" by simp
  moreover have "list_all render_event [Inline (strip t)]" by simp
  ultimately show ?case by blast
next
  case (3 inl ty at w)
  then show ?case by simp
next
  case (4 inl w)
  then show ?case by simp
next
  case (5 inl tok toks w)
  obtain r1 t1 w1 where a: "iter_render_tok inl tok w = (r1, t1, w1)"
    by (cases "iter_render_tok inl tok w") auto
  show ?case
  proof (cases r1)
    case (Some e)
    with a 5(3) have "iter_render_tok inl tok w = (Some err, t1, w')" by auto
    from 5(1) [OF this] show ?thesis .
  next
    case None
    with a 5(3) obtain ts where
      b: "iter_render inl toks (w1\<lparr>log := log w1 @ [Yield (tok_type t1)]\<rparr>) = (Some err, ts, w')"
      by (auto split: prod.splits)
    from a None have a': "iter_render_tok inl tok w = (None, t1, w1)" by simp
    from 5(2) [OF a' [symmetric] refl refl b] obtain evs where
      e: "log w' = (log w1 @ [Yield (tok_type t1)]) @ evs @ [Raised err]" "list_all render_event evs"
      by auto
    from iter_render_postorder(1) [OF a']
    have p: "log w1 @ [Yield (tok_type t1)] = log w @ postorder tok" by simp
    from e p have "log w' = log w @ (postorder tok @ evs) @ [Raised err]" by simp
    moreover from e(2) have "list_all render_event (postorder tok @ evs)"
      by (simp add: postorder_render_events)
    ultimately show ?thesis by blast
  qed
qed

lemma iter_render_tok_success_log:
  assumes "iter_render_tok inl tok w = (None, tok', w')"
  shows "\<exists>evs. log w' = log w @ evs \<and> list_all render_event evs \<and> tok_type tok' = tok_type tok
     \<and> evs @ [Yield (tok_type tok)] = postorder tok"
proof -
  from iter_render_postorder(1) [OF assms]
  have p: "log w' @ [Yield (tok_type tok)] = log w @ postorder tok" "tok_type tok' = tok_type tok"
    by simp_all
  have "postorder tok \<noteq> []" by (cases tok rule: postorder.cases) auto
  then obtain evs ev where q: "postorder tok = evs @ [ev]"
    by (cases "postorder tok" rule: rev_cases) auto
  with p have "log w' = log w @ evs" "ev = Yield (tok_type tok)" by auto
  moreover from q postorder_render_events [of tok] have "list_all render_event evs" by simp
  ultimately show ?thesis using p q by auto
qed

lemma gen_next_log:
  assumes "gen_next inl g w = (r, g', w')"
  shows "\<exists>evs. log w' = log w @ evs \<and>
     (case r of Inr tok \<Rightarrow> list_all render_event evs
      | Inl err \<Rightarrow> \<exists>evs'. evs = evs' @ [Raised err] \<and> list_all render_event evs')"
proof (cases g)
  case Exhausted
  with assms show ?thesis by (auto simp: gen_next_def)
next
  case (Running i)
  show ?thesis
  proof (cases "i < length (tokens (st w))")
    case False
    with Running assms show ?thesis by (auto simp: gen_next_def)
  next
    case True
    obtain r1 t1 w1 where a: "iter_render_tok inl (tokens (st w) ! i) w = (r1, t1, w1)"
      by (cases "iter_render_tok inl (tokens (st w) ! i) w") auto
    show ?thesis
    proof (cases r1)
      case None
      with a Running True assms have r: "r = Inr (Some t1)"
        and w': "log w' = log w1 @ [Yield (tok_type t1)]"
        by (auto simp: gen_next_def set_token_def)
      from iter_render_tok_success_log [OF a [unfolded None]] obtain evs where
        "log w1 = log w @ evs" "list_all render_event evs" by auto
      with w' have "log w' = log w @ (evs @ [Yield (tok_type t1)])"
        "list_all render_event (evs @ [Yield (tok_type t1)])" by simp_all
      with r show ?thesis by (intro exI [of _ "evs @ [Yield (tok_type t1)]"]) simp
    next
      case (Some err)
      with a Running True assms have r: "r = Inl err" and w': "log w' = log w1"
        by (auto simp: gen_next_def set_token_def)
      from iter_render_failure(1) [OF a [unfolded Some]] obtain evs where
        "log w1 = log w @ evs @ [Raised err]" "list_all render_event evs" by auto
      with r w' show ?thesis by (intro exI [of _ "evs @ [Raised err]"]) simp
    qed
  qed
qed

lemma run_renderer_log:
  "run_renderer inl rd g lg = (r, w') \<Longrightarrow>
    \<exists>evs. log w' = lg @ evs \<and>
     (case r of Inr x \<Rightarrow> list_all render_event evs
      | Inl err \<Rightarrow> \<exists>evs'. evs = evs' @ [Raised err] \<and> list_all render_event evs')"
proof (induction rd arbitrary: g lg)
  case (Return x state)
  then show ?case by auto
next
  case (Throw err state)
  then show ?case by auto
next
  case (Next state k)
  obtain r1 g1 w1 where a: "gen_next inl g \<lparr>st = state, log = lg\<rparr> = (r1, g1, w1)"
    by (cases "gen_next inl g \<lparr>st = state, log = lg\<rparr>") auto
  from gen_next_log [OF a] obtain evs1 where
    e1: "log w1 = lg @ evs1"
    "case r1 of Inr tok \<Rightarrow> list_all render_event evs1
      | Inl err \<Rightarrow> \<exists>evs'. evs1 = evs' @ [Raised err] \<and> list_all render_event evs'"
    by auto
  from e1(2) have l1: "list_all render_event evs1" by (cases r1) auto
  from a Next.prems have b: "run_renderer inl (k r1 (st w1)) g1 (log w1) = (r, w')" by simp
  have "k r1 (st w1) \<in> range (k r1)" by blast
  moreover have "k r1 \<in> range k" by blast
  ultimately obtain evs where
    e: "log w' = log w1 @ evs"
    "case r of Inr x \<Rightarrow> list_all render_event evs
      | Inl err \<Rightarrow> \<exists>evs'. evs = evs' @ [Raised err] \<and> list_all render_event evs'"
    using Next.IH [OF _ _ b] by blast
  from e e1 have lg: "log w' = lg @ (evs1 @ evs)" by simp
  show ?case
  proof (cases r)
    case (Inr x)
    with e l1 have "list_all render_event (evs1 @ evs)" by simp
    with lg Inr show ?thesis by (intro exI [of _ "evs1 @ evs"]) simp
  next
    case (Inl err)
    with e obtain evs' where "evs = evs' @ [Raised err]" "list_all render_event evs'" by auto
    with l1 have "evs1 @ evs = (evs1 @ evs') @ [Raised err]" "list_all render_event (evs1 @ evs')"
      by simp_all
    with lg Inl show ?thesis by (intro exI [of _ "evs1 @ evs"]) simp
  qed
qed

lemma list_data_log:
  assumes "list_data inl w = (r, w')"
  shows "\<exists>evs. log w' = log w @ evs \<and>
     (case r of Inr x \<Rightarrow> list_all render_event evs
      | Inl err \<Rightarrow> \<exists>evs'. evs = evs' @ [Raised err] \<and> list_all render_event evs')"
proof -
  obtain r1 ts w1 where a: "iter_render inl (tokens (st w)) w = (r1, ts, w1)"
    by (cases "iter_render inl (tokens (st w)) w") auto
  show ?thesis
  proof (cases r1)
    case None
    with a assms have r: "r = Inr (Tokens ts)" "log w' = log w1" by (auto simp: list_data_def)
    from iter_render_postorder(2) [OF a [unfolded None]]
    have "log w1 = log w @ concat (map postorder (tokens (st w)))" by simp
    moreover have "list_all render_event (concat (map postorder (tokens (st w))))"
      using postorder_render_events by (auto simp: list_all_iff)
    ultimately show ?thesis using r
      by (intro exI [of _ "concat (map postorder (tokens (st w)))"]) simp
  next
    case (Some err)
    with a assms have r: "r = Inl err" "log w' = log w1" by (auto simp: list_data_def)
    from iter_render_failure(2) [OF a [unfolded Some]] obtain evs where
      "log w1 = log w @ evs @ [Raised err]" "list_all render_event evs" by auto
    with r show ?thesis by (intro exI [of _ "evs @ [Raised err]"]) simp
  qed
qed

lemma render_state_log:
  assumes "render_state md w = (r, w')"
  shows "\<exists>evs. log w' = log w @ evs \<and>
     (case r of Inr x \<Rightarrow> list_all render_event evs
      | Inl err \<Rightarrow> \<exists>evs'. evs = evs' @ [Raised err] \<and> list_all render_event evs')"
proof (cases "renderer md")
  case None
  with assms show ?thesis by (simp add: render_state_def list_data_log)
next
  case (Some rd)
  with assms have "run_renderer (inline md) (rd (st w)) (Running 0) (log w @ [Render]) = (r, w')"
    by (simp add: render_state_def)
  from run_renderer_log [OF this] obtain evs where
    e: "log w' = (log w @ [Render]) @ evs"
    "case r of Inr x \<Rightarrow> list_all render_event evs
      | Inl err \<Rightarrow> \<exists>evs'. evs = evs' @ [Raised err] \<and> list_all render_event evs'"
    by auto
  show ?thesis
  proof (cases r)
    case (Inr x)
    with e show ?thesis by (intro exI [of _ "Render # evs"]) simp
  next
    case (Inl err)
    with e obtain evs' where "evs = evs' @ [Raised err]" "list_all render_event evs'" by auto
    with e Inl show ?thesis by (intro exI [of _ "Render # evs"]) simp
  qed
qed

subsection \<open>The exceptions of the resolver and of the renderer\<close>




subsection \<open>The trees the resolver returns\<close>

lemma iter_render_resolved_from:
  "at_most_one tok \<Longrightarrow> iter_render_tok inl tok w = (None, tok', w') \<Longrightarrow> resolved_from tok tok'"
  "list_all at_most_one toks \<Longrightarrow> iter_render inl toks w = (None, toks', w') \<Longrightarrow>
     list_all2 resolved_from toks toks'"
proof (induction inl tok w and inl toks w arbitrary: tok' w' and toks' w'
    rule: iter_render_tok_iter_render.induct)
  case (1 inl ty at cs tx w)
  then show ?case by (auto split: prod.splits option.splits)
next
  case (2 inl ty at t w)
  then show ?case by (auto split: prod.splits sum.splits)
next
  case (3 inl ty at w)
  then show ?case by auto
next
  case (4 inl w)
  then show ?case by simp
next
  case (5 inl tok toks w)
  from 5(4) obtain t1 w1 where
    a: "iter_render_tok inl tok w = (None, t1, w1)"
    by (auto split: prod.splits option.splits)
  with 5(4) obtain ts where
    b: "iter_render inl toks (w1\<lparr>log := log w1 @ [Yield (tok_type t1)]\<rparr>) = (None, ts, w')"
    and c: "toks' = t1 # ts"
    by (auto split: prod.splits option.splits)
  from 5(3) have d: "at_most_one tok" "list_all at_most_one toks" by simp_all
  from 5(1) [OF d(1) a] 5(2) [OF a [symmetric] refl refl d(2) b] c show ?case by simp
qed

lemma iter_render_resolution:
  "iter_render_tok inl tok w = (None, tok', w') \<Longrightarrow> resolution tok tok'"
  "iter_render inl toks w = (None, toks', w') \<Longrightarrow> list_all2 resolution toks toks'"
proof (induction inl tok w and inl toks w arbitrary: tok' w' and toks' w'
    rule: iter_render_tok_iter_render.induct)
  case (1 inl ty at cs tx w)
  then show ?case by (auto split: prod.splits option.splits)
next
  case (2 inl ty at t w)
  then show ?case by (auto split: prod.splits sum.splits)
next
  case (3 inl ty at w)
  then show ?case by auto
next
  case (4 inl w)
  then show ?case by simp
next
  case (5 inl tok toks w)
  from 5(3) obtain t1 w1 where
    a: "iter_render_tok inl tok w = (None, t1, w1)"
    by (auto split: prod.splits option.splits)
  with 5(3) obtain ts where
    b: "iter_render inl toks (w1\<lparr>log := log w1 @ [Yield (tok_type t1)]\<rparr>) = (None, ts, w')"
    and c: "toks' = t1 # ts"
    by (auto split: prod.splits option.splits)
  from 5(1) [OF a] 5(2) [OF a [symmetric] refl refl b] c show ?case by simp
qed


lemma iter_render_resolved:
  "resolved tok \<Longrightarrow> iter_render_tok inl tok w = (None, tok, w\<lparr>log := log w @ butlast (postorder tok)\<rparr>)
     \<and> filter is_inline (postorder tok) = []"
  "list_all resolved toks \<Longrightarrow>
     iter_render inl toks w = (None, toks, w\<lparr>log := log w @ concat (map postorder toks)\<rparr>)
     \<and> filter is_inline (concat (map postorder toks)) = []"
proof (induction inl tok w and inl toks w rule: iter_render_tok_iter_render.induct)
  case (1 inl ty at cs tx w)
  then show ?case by (cases tx) auto
next
  case (2 inl ty at t w)
  then show ?case by simp
next
  case (3 inl ty at w)
  then show ?case by simp
next
  case (4 inl w)
  then show ?case by simp
next
  case (5 inl tok toks w)
  from 5(3) have d: "resolved tok" "list_all resolved toks" by simp_all
  note a = 5(1) [OF d(1)]
  have ne: "postorder tok = butlast (postorder tok) @ [Yield (tok_type tok)]"
    by (cases tok rule: postorder.cases) auto
  from a have a1: "iter_render_tok inl tok w = (None, tok, w\<lparr>log := log w @ butlast (postorder tok)\<rparr>)"
    by simp
  note b = 5(2) [OF a1 [symmetric] refl refl d(2)]
  have "(log w @ butlast (postorder tok)) @ [Yield (tok_type tok)] = log w @ postorder tok"
    using ne by (metis append_assoc)
  with a a1 b show ?case by simp
qed

subsection \<open>The stages of a run\<close>

lemma parse_success:
  assumes "parse md s state = (Inr r, w)"
  shows "\<exists>w1 w2 w3 w4 r0 w5.
     invoke (Process (normalize_lines s)) (process (block md) (normalize_lines s))
       \<lparr>st = (case state of None \<Rightarrow> state_cls (block md) | Some state \<Rightarrow> state), log = []\<rparr>
       = (Inr (), w1) \<and>
     run_hooks BeforeParseHook 0 (before_parse_hooks md) w1 = (Inr (), w2) \<and>
     invoke BlockParse (block_parse (block md)) w2 = (Inr (), w3) \<and>
     run_hooks BeforeRenderHook 0 (before_render_hooks md) w3 = (Inr (), w4) \<and>
     render_state md w4 = (Inr r0, w5) \<and>
     run_after_render_hooks 0 (after_render_hooks md) r0 w5 = (Inr r, w)"
  using assms by (auto simp: parse_def Let_def split: prod.splits sum.splits)

lemma parse_stages:
  assumes "parse md s state = (r, w)"
  shows "\<exists>w1 r1. 
     invoke (Process (normalize_lines s)) (process (block md) (normalize_lines s))
       \<lparr>st = (case state of None \<Rightarrow> state_cls (block md) | Some state \<Rightarrow> state), log = []\<rparr>
       = (r1, w1) \<and>
     (case r1 of Inl err \<Rightarrow> r = Inl err \<and> w = w1 | Inr u \<Rightarrow>
     (\<exists>w2 r2. run_hooks BeforeParseHook 0 (before_parse_hooks md) w1 = (r2, w2) \<and>
     (case r2 of Inl err \<Rightarrow> r = Inl err \<and> w = w2 | Inr u \<Rightarrow>
     (\<exists>w3 r3. invoke BlockParse (block_parse (block md)) w2 = (r3, w3) \<and>
     (case r3 of Inl err \<Rightarrow> r = Inl err \<and> w = w3 | Inr u \<Rightarrow>
     (\<exists>w4 r4. run_hooks BeforeRenderHook 0 (before_render_hooks md) w3 = (r4, w4) \<and>
     (case r4 of Inl err \<Rightarrow> r = Inl err \<and> w = w4 | Inr u \<Rightarrow>
     (\<exists>w5 r5. render_state md w4 = (r5, w5) \<and>
     (case r5 of Inl err \<Rightarrow> r = Inl err \<and> w = w5 | Inr r0 \<Rightarrow>
     run_after_render_hooks 0 (after_render_hooks md) r0 w5 = (r, w))))))))))"
  using assms by (auto simp: parse_def Let_def split: prod.splits sum.splits)

lemma upt_prefix:
  assumes "k < n"
  shows "map f [0..<n] = map f [0..<Suc k] @ map f [Suc k..<n]"
proof -
  from assms have n: "Suc k + (n - Suc k) = n" by simp
  have "[0..<Suc k + (n - Suc k)] = [0..<Suc k] @ [Suc k..<Suc k + (n - Suc k)]"
    by (rule upt_add_eq_append) simp
  then have "[0..<n] = [0..<Suc k] @ [Suc k..<n]"
    unfolding n .
  then have "map f [0..<n] = map f ([0..<Suc k] @ [Suc k..<n])"
    by (rule arg_cong)
  then show ?thesis
    by (simp only: map_append)
qed

lemma parse_log:
  assumes "parse md s state = (r, w)"
  shows "\<exists>evs post. list_all render_event evs \<and>
     (case r of
        Inr x \<Rightarrow> log w = pipeline md s evs
      | Inl err \<Rightarrow> \<exists>pre. log w = pre @ [Raised err] \<and> pre \<noteq> [] \<and> pipeline md s evs = pre @ post)"
proof -
  let ?n = "length (before_parse_hooks md)"
  let ?m = "length (before_render_hooks md)"
  let ?p = "length (after_render_hooks md)"
  let ?s = "normalize_lines s"
  from parse_stages [OF assms] obtain w1 r1 where
    p1: "invoke (Process ?s) (process (block md) ?s)
       \<lparr>st = (case state of None \<Rightarrow> state_cls (block md) | Some state \<Rightarrow> state), log = []\<rparr>
       = (r1, w1)"
    and c1: "case r1 of Inl err \<Rightarrow> r = Inl err \<and> w = w1 | Inr u \<Rightarrow>
     (\<exists>w2 r2. run_hooks BeforeParseHook 0 (before_parse_hooks md) w1 = (r2, w2) \<and>
     (case r2 of Inl err \<Rightarrow> r = Inl err \<and> w = w2 | Inr u \<Rightarrow>
     (\<exists>w3 r3. invoke BlockParse (block_parse (block md)) w2 = (r3, w3) \<and>
     (case r3 of Inl err \<Rightarrow> r = Inl err \<and> w = w3 | Inr u \<Rightarrow>
     (\<exists>w4 r4. run_hooks BeforeRenderHook 0 (before_render_hooks md) w3 = (r4, w4) \<and>
     (case r4 of Inl err \<Rightarrow> r = Inl err \<and> w = w4 | Inr u \<Rightarrow>
     (\<exists>w5 r5. render_state md w4 = (r5, w5) \<and>
     (case r5 of Inl err \<Rightarrow> r = Inl err \<and> w = w5 | Inr r0 \<Rightarrow>
     run_after_render_hooks 0 (after_render_hooks md) r0 w5 = (r, w)))))))))"
    by blast
  from invoke_log [OF p1]
  have l1: "log w1 = Process ?s # (case r1 of Inl err \<Rightarrow> [Raised err] | Inr x \<Rightarrow> [])" by simp
  show ?thesis
  proof (cases r1)
    case (Inl err)
    with c1 l1 have "r = Inl err" "log w = [Process ?s] @ [Raised err]" by simp_all
    then show ?thesis
      by (intro exI [of _ "[]"] exI [of _ "tl (pipeline md s [])"]) (simp add: pipeline_def)
  next
    case Inr1: (Inr u1)
    with c1 obtain w2 r2 where
      p2: "run_hooks BeforeParseHook 0 (before_parse_hooks md) w1 = (r2, w2)"
      and c2: "case r2 of Inl err \<Rightarrow> r = Inl err \<and> w = w2 | Inr u \<Rightarrow>
       (\<exists>w3 r3. invoke BlockParse (block_parse (block md)) w2 = (r3, w3) \<and>
       (case r3 of Inl err \<Rightarrow> r = Inl err \<and> w = w3 | Inr u \<Rightarrow>
       (\<exists>w4 r4. run_hooks BeforeRenderHook 0 (before_render_hooks md) w3 = (r4, w4) \<and>
       (case r4 of Inl err \<Rightarrow> r = Inl err \<and> w = w4 | Inr u \<Rightarrow>
       (\<exists>w5 r5. render_state md w4 = (r5, w5) \<and>
       (case r5 of Inl err \<Rightarrow> r = Inl err \<and> w = w5 | Inr r0 \<Rightarrow>
       run_after_render_hooks 0 (after_render_hooks md) r0 w5 = (r, w)))))))"
      by auto
    from l1 Inr1 have l1': "log w1 = [Process ?s]" by simp
    note h2 = run_hooks_log [OF p2]
    show ?thesis
    proof (cases r2)
      case (Inl err)
      with h2 l1' obtain k where k: "k < ?n"
        "log w2 = [Process ?s] @ map BeforeParseHook [0..<Suc k] @ [Raised err]"
        by auto
      from Inl c2 have rw: "r = Inl err" "w = w2" by simp_all
      have "pipeline md s [] = (Process ?s # map BeforeParseHook [0..<Suc k]) @
          (map BeforeParseHook [Suc k..<?n] @
           BlockParse # map BeforeRenderHook [0..<?m] @ map AfterRenderHook [0..<?p])"
        unfolding pipeline_def using upt_prefix [OF k(1), of BeforeParseHook] by simp
      with rw k(2) show ?thesis
        by (intro exI [of _ "[]"] exI [of _ "map BeforeParseHook [Suc k..<?n] @
           BlockParse # map BeforeRenderHook [0..<?m] @ map AfterRenderHook [0..<?p]"])
          (simp del: upt_Suc)
    next
      case Inr2: (Inr u2)
      with h2 l1' have l2: "log w2 = Process ?s # map BeforeParseHook [0..<?n]" by simp
      from Inr2 c2 obtain w3 r3 where
        p3: "invoke BlockParse (block_parse (block md)) w2 = (r3, w3)"
        and c3: "case r3 of Inl err \<Rightarrow> r = Inl err \<and> w = w3 | Inr u \<Rightarrow>
         (\<exists>w4 r4. run_hooks BeforeRenderHook 0 (before_render_hooks md) w3 = (r4, w4) \<and>
         (case r4 of Inl err \<Rightarrow> r = Inl err \<and> w = w4 | Inr u \<Rightarrow>
         (\<exists>w5 r5. render_state md w4 = (r5, w5) \<and>
         (case r5 of Inl err \<Rightarrow> r = Inl err \<and> w = w5 | Inr r0 \<Rightarrow>
         run_after_render_hooks 0 (after_render_hooks md) r0 w5 = (r, w)))))"
        by auto
      from invoke_log [OF p3] l2
      have l3: "log w3 = Process ?s # map BeforeParseHook [0..<?n] @
          BlockParse # (case r3 of Inl err \<Rightarrow> [Raised err] | Inr x \<Rightarrow> [])" by simp
      show ?thesis
      proof (cases r3)
        case (Inl err)
        with c3 l3 have "r = Inl err"
          "log w = (Process ?s # map BeforeParseHook [0..<?n] @ [BlockParse]) @ [Raised err]"
          by simp_all
        then show ?thesis
          by (intro exI [of _ "[]"]
              exI [of _ "map BeforeRenderHook [0..<?m] @ map AfterRenderHook [0..<?p]"])
            (simp add: pipeline_def)
      next
        case Inr3: (Inr u3)
        with l3 have l3': "log w3 = Process ?s # map BeforeParseHook [0..<?n] @ [BlockParse]"
          by simp
        from Inr3 c3 obtain w4 r4 where
          p4: "run_hooks BeforeRenderHook 0 (before_render_hooks md) w3 = (r4, w4)"
          and c4: "case r4 of Inl err \<Rightarrow> r = Inl err \<and> w = w4 | Inr u \<Rightarrow>
           (\<exists>w5 r5. render_state md w4 = (r5, w5) \<and>
           (case r5 of Inl err \<Rightarrow> r = Inl err \<and> w = w5 | Inr r0 \<Rightarrow>
           run_after_render_hooks 0 (after_render_hooks md) r0 w5 = (r, w)))"
          by auto
        note h4 = run_hooks_log [OF p4]
        show ?thesis
        proof (cases r4)
          case (Inl err)
          with h4 l3' obtain k where k: "k < ?m"
            "log w4 = (Process ?s # map BeforeParseHook [0..<?n] @
               BlockParse # map BeforeRenderHook [0..<Suc k]) @ [Raised err]"
            by auto
          from Inl c4 have rw: "r = Inl err" "w = w4" by simp_all
          have "pipeline md s [] = (Process ?s # map BeforeParseHook [0..<?n] @
               BlockParse # map BeforeRenderHook [0..<Suc k]) @
             (map BeforeRenderHook [Suc k..<?m] @ map AfterRenderHook [0..<?p])"
            unfolding pipeline_def using upt_prefix [OF k(1), of BeforeRenderHook] by simp
          with rw k(2) show ?thesis
            by (intro exI [of _ "[]"]
                exI [of _ "map BeforeRenderHook [Suc k..<?m] @ map AfterRenderHook [0..<?p]"])
              (simp del: upt_Suc)
        next
          case Inr4: (Inr u4)
          with h4 l3' have l4: "log w4 = Process ?s # map BeforeParseHook [0..<?n] @
              BlockParse # map BeforeRenderHook [0..<?m]" by simp
          from Inr4 c4 obtain w5 r5 where
            p5: "render_state md w4 = (r5, w5)"
            and c5: "case r5 of Inl err \<Rightarrow> r = Inl err \<and> w = w5 | Inr r0 \<Rightarrow>
              run_after_render_hooks 0 (after_render_hooks md) r0 w5 = (r, w)"
            by auto
          from render_state_log [OF p5] obtain evs where
            e: "log w5 = log w4 @ evs"
            "case r5 of Inr x \<Rightarrow> list_all render_event evs
              | Inl err \<Rightarrow> \<exists>evs'. evs = evs' @ [Raised err] \<and> list_all render_event evs'"
            by auto
          show ?thesis
          proof (cases r5)
            case (Inl err)
            with e obtain evs' where e': "evs = evs' @ [Raised err]" "list_all render_event evs'"
              by auto
            from Inl c5 have rw: "r = Inl err" "w = w5" by simp_all
            from e(1) e'(1) l4 rw have "log w = (Process ?s # map BeforeParseHook [0..<?n] @
                BlockParse # map BeforeRenderHook [0..<?m] @ evs') @ [Raised err]" by simp
            with rw e'(2) show ?thesis
              by (intro exI [of _ evs'] exI [of _ "map AfterRenderHook [0..<?p]"])
                (simp add: pipeline_def)
          next
            case Inr5: (Inr r0)
            with e have ev: "list_all render_event evs" by simp
            from Inr5 c5 have p6: "run_after_render_hooks 0 (after_render_hooks md) r0 w5 = (r, w)"
              by simp
            note h6 = run_after_render_hooks_log [OF p6]
            from e(1) l4 have l5: "log w5 = Process ?s # map BeforeParseHook [0..<?n] @
                BlockParse # map BeforeRenderHook [0..<?m] @ evs" by simp
            show ?thesis
            proof (cases r)
              case (Inr x)
              with h6 l5 have "log w = pipeline md s evs" by (simp add: pipeline_def)
              with Inr ev show ?thesis by (intro exI [of _ evs] exI [of _ "[]"]) simp
            next
              case (Inl err)
              with h6 l5 obtain k where k: "k < ?p"
                "log w = (Process ?s # map BeforeParseHook [0..<?n] @
                   BlockParse # map BeforeRenderHook [0..<?m] @ evs @
                   map AfterRenderHook [0..<Suc k]) @ [Raised err]"
                by auto
              have "pipeline md s evs = (Process ?s # map BeforeParseHook [0..<?n] @
                   BlockParse # map BeforeRenderHook [0..<?m] @ evs @
                   map AfterRenderHook [0..<Suc k]) @ map AfterRenderHook [Suc k..<?p]"
                unfolding pipeline_def using upt_prefix [OF k(1), of AfterRenderHook] by simp
              with Inl k(2) ev show ?thesis
                by (intro exI [of _ evs] exI [of _ "map AfterRenderHook [Suc k..<?p]"])
                  (simp del: upt_Suc)
            qed
          qed
        qed
      qed
    qed
  qed
qed

lemma parse_log_head:
  "\<exists>evs. log (snd (parse md s state)) = Process (normalize_lines s) # evs"
proof -
  obtain r w where p: "parse md s state = (r, w)" by (cases "parse md s state")
  from parse_log [OF p] obtain evs post where
    e: "case r of
        Inr x \<Rightarrow> log w = pipeline md s evs
      | Inl err \<Rightarrow> \<exists>pre. log w = pre @ [Raised err] \<and> pre \<noteq> [] \<and> pipeline md s evs = pre @ post"
    by blast
  have "\<exists>evs. log w = Process (normalize_lines s) # evs"
  proof (cases r)
    case (Inr x)
    with e show ?thesis by (simp add: pipeline_def)
  next
    case (Inl err)
    with e obtain pre where q: "log w = pre @ [Raised err]" "pre \<noteq> []"
      "pipeline md s evs = pre @ post" by auto
    from q(2) obtain ev pre' where c: "pre = ev # pre'" by (cases pre) auto
    with q(3) have "ev = Process (normalize_lines s)" by (simp add: pipeline_def)
    with q(1) c show ?thesis by simp
  qed
  with p show ?thesis by simp
qed

lemma foldl_chain_step_Inl: "foldl chain_step (Inl err, state) hooks = (Inl err, state)"
  by (induction hooks) (simp_all add: chain_step_def)

lemma run_after_render_hooks_fold:
  "(case run_after_render_hooks i hooks x w of (r, w') \<Rightarrow> (r, st w')) =
     foldl chain_step (Inr x, st w) hooks"
proof (induction hooks arbitrary: i x w)
  case Nil
  show ?case by simp
next
  case (Cons hook hooks)
  obtain r1 s1 where h: "hook x (st w) = (r1, s1)" by (cases "hook x (st w)")
  show ?case
  proof (cases r1)
    case (Inl err)
    with h have "chain_step (Inr x, st w) hook = (Inl err, s1)"
      by (simp add: chain_step_def)
    with h Inl show ?thesis
      by (simp add: invoke_def foldl_chain_step_Inl)
  next
    case (Inr y)
    with h have "chain_step (Inr x, st w) hook = (Inr y, s1)"
      by (simp add: chain_step_def)
    with h Inr Cons.IH [of "Suc i" y "\<lparr>st = s1, log = log w @ [AfterRenderHook i]\<rparr>"]
    show ?thesis
      by (simp add: invoke_def)
  qed
qed

lemma invoke_st: "invoke ev f w = (r, w') \<Longrightarrow> f (st w) = (r, st w')"
  by (auto simp: invoke_def split: prod.splits sum.splits)

lemma foldl_hook_step_Inl: "foldl hook_step (Inl err, state) hooks = (Inl err, state)"
  by (induction hooks) (simp_all add: hook_step_def)

lemma run_hooks_fold:
  "run_hooks ev i hooks w = (r, w') \<Longrightarrow> foldl hook_step (Inr (), st w) hooks = (r, st w')"
proof (induction hooks arbitrary: i w)
  case Nil
  then show ?case by auto
next
  case (Cons hook hooks)
  obtain r1 w1 where inv: "invoke (ev i) hook w = (r1, w1)" by (cases "invoke (ev i) hook w")
  from invoke_st [OF inv] have h: "hook (st w) = (r1, st w1)" .
  show ?case
  proof (cases r1)
    case (Inl err)
    with inv Cons.prems have rw: "r = Inl err" "w' = w1" by simp_all
    from h Inl have "hook_step (Inr (), st w) hook = (Inl err, st w1)"
      by (simp add: hook_step_def)
    with rw show ?thesis by (simp add: foldl_hook_step_Inl)
  next
    case (Inr u)
    with inv Cons.prems have "run_hooks ev (Suc i) hooks w1 = (r, w')" by simp
    from Cons.IH [OF this] have "foldl hook_step (Inr (), st w1) hooks = (r, st w')" .
    moreover from h Inr have "hook_step (Inr (), st w) hook = (Inr (), st w1)"
      by (simp add: hook_step_def)
    ultimately show ?thesis by simp
  qed
qed

lemma parse_chain:
  assumes "parse md s state = (r, w)"
  shows "case before_render md s state of
      (Inl err, state4) \<Rightarrow> r = Inl err \<and> st w = state4
    | (Inr u, state4) \<Rightarrow>
        \<exists>w4 r5 w5. st w4 = state4 \<and> render_state md w4 = (r5, w5) \<and>
          (case r5 of
             Inl err \<Rightarrow> r = Inl err \<and> w = w5
           | Inr r0 \<Rightarrow> foldl chain_step (Inr r0, st w5) (after_render_hooks md) = (r, st w))"
proof -
  let ?s = "normalize_lines s"
  let ?state = "case state of None \<Rightarrow> state_cls (block md) | Some state \<Rightarrow> state"
  have br: "before_render md s state =
      foldl hook_step
        (hook_step (foldl hook_step (process (block md) ?s ?state) (before_parse_hooks md))
           (block_parse (block md)))
        (before_render_hooks md)"
    by (simp add: before_render_def Let_def)
  have stop: "\<And>err st'. foldl hook_step (hook_step (Inl err, st') (block_parse (block md)))
      (before_render_hooks md) = (Inl err, st')"
    by (simp add: hook_step_def foldl_hook_step_Inl)
  from parse_stages [OF assms] obtain w1 r1 where
    p1: "invoke (Process ?s) (process (block md) ?s) \<lparr>st = ?state, log = []\<rparr> = (r1, w1)"
    and c1: "case r1 of Inl err \<Rightarrow> r = Inl err \<and> w = w1 | Inr u \<Rightarrow>
     (\<exists>w2 r2. run_hooks BeforeParseHook 0 (before_parse_hooks md) w1 = (r2, w2) \<and>
     (case r2 of Inl err \<Rightarrow> r = Inl err \<and> w = w2 | Inr u \<Rightarrow>
     (\<exists>w3 r3. invoke BlockParse (block_parse (block md)) w2 = (r3, w3) \<and>
     (case r3 of Inl err \<Rightarrow> r = Inl err \<and> w = w3 | Inr u \<Rightarrow>
     (\<exists>w4 r4. run_hooks BeforeRenderHook 0 (before_render_hooks md) w3 = (r4, w4) \<and>
     (case r4 of Inl err \<Rightarrow> r = Inl err \<and> w = w4 | Inr u \<Rightarrow>
     (\<exists>w5 r5. render_state md w4 = (r5, w5) \<and>
     (case r5 of Inl err \<Rightarrow> r = Inl err \<and> w = w5 | Inr r0 \<Rightarrow>
     run_after_render_hooks 0 (after_render_hooks md) r0 w5 = (r, w)))))))))"
    by blast
  from invoke_st [OF p1] have f1: "process (block md) ?s ?state = (r1, st w1)" by simp
  show ?thesis
  proof (cases r1)
    case (Inl err)
    with c1 have "r = Inl err" "w = w1" by simp_all
    moreover from f1 Inl have "before_render md s state = (Inl err, st w1)"
      by (simp add: br foldl_hook_step_Inl stop)
    ultimately show ?thesis by simp
  next
    case Inr1: (Inr u1)
    with c1 obtain w2 r2 where
      p2: "run_hooks BeforeParseHook 0 (before_parse_hooks md) w1 = (r2, w2)"
      and c2: "case r2 of Inl err \<Rightarrow> r = Inl err \<and> w = w2 | Inr u \<Rightarrow>
       (\<exists>w3 r3. invoke BlockParse (block_parse (block md)) w2 = (r3, w3) \<and>
       (case r3 of Inl err \<Rightarrow> r = Inl err \<and> w = w3 | Inr u \<Rightarrow>
       (\<exists>w4 r4. run_hooks BeforeRenderHook 0 (before_render_hooks md) w3 = (r4, w4) \<and>
       (case r4 of Inl err \<Rightarrow> r = Inl err \<and> w = w4 | Inr u \<Rightarrow>
       (\<exists>w5 r5. render_state md w4 = (r5, w5) \<and>
       (case r5 of Inl err \<Rightarrow> r = Inl err \<and> w = w5 | Inr r0 \<Rightarrow>
       run_after_render_hooks 0 (after_render_hooks md) r0 w5 = (r, w)))))))"
      by auto
    from f1 Inr1 have f1': "process (block md) ?s ?state = (Inr (), st w1)" by simp
    from run_hooks_fold [OF p2]
    have f2: "foldl hook_step (process (block md) ?s ?state) (before_parse_hooks md) = (r2, st w2)"
      by (simp add: f1')
    show ?thesis
    proof (cases r2)
      case (Inl err)
      with c2 have "r = Inl err" "w = w2" by simp_all
      moreover from f2 Inl have "before_render md s state = (Inl err, st w2)"
        by (simp add: br stop)
      ultimately show ?thesis by simp
    next
      case Inr2: (Inr u2)
      with c2 obtain w3 r3 where
        p3: "invoke BlockParse (block_parse (block md)) w2 = (r3, w3)"
        and c3: "case r3 of Inl err \<Rightarrow> r = Inl err \<and> w = w3 | Inr u \<Rightarrow>
         (\<exists>w4 r4. run_hooks BeforeRenderHook 0 (before_render_hooks md) w3 = (r4, w4) \<and>
         (case r4 of Inl err \<Rightarrow> r = Inl err \<and> w = w4 | Inr u \<Rightarrow>
         (\<exists>w5 r5. render_state md w4 = (r5, w5) \<and>
         (case r5 of Inl err \<Rightarrow> r = Inl err \<and> w = w5 | Inr r0 \<Rightarrow>
         run_after_render_hooks 0 (after_render_hooks md) r0 w5 = (r, w)))))"
        by auto
      from invoke_st [OF p3] f2 Inr2
      have f3: "hook_step (foldl hook_step (process (block md) ?s ?state) (before_parse_hooks md))
          (block_parse (block md)) = (r3, st w3)"
        by (simp add: hook_step_def)
      show ?thesis
      proof (cases r3)
        case (Inl err)
        with c3 have "r = Inl err" "w = w3" by simp_all
        moreover from f3 Inl have "before_render md s state = (Inl err, st w3)"
          by (simp add: br foldl_hook_step_Inl)
        ultimately show ?thesis by simp
      next
        case Inr3: (Inr u3)
        with c3 obtain w4 r4 where
          p4: "run_hooks BeforeRenderHook 0 (before_render_hooks md) w3 = (r4, w4)"
          and c4: "case r4 of Inl err \<Rightarrow> r = Inl err \<and> w = w4 | Inr u \<Rightarrow>
           (\<exists>w5 r5. render_state md w4 = (r5, w5) \<and>
           (case r5 of Inl err \<Rightarrow> r = Inl err \<and> w = w5 | Inr r0 \<Rightarrow>
           run_after_render_hooks 0 (after_render_hooks md) r0 w5 = (r, w)))"
          by auto
        from run_hooks_fold [OF p4] f3 Inr3
        have f4: "before_render md s state = (r4, st w4)" by (simp add: br)
        show ?thesis
        proof (cases r4)
          case (Inl err)
          with c4 f4 show ?thesis by simp
        next
          case Inr4: (Inr u4)
          with c4 obtain w5 r5 where
            p5: "render_state md w4 = (r5, w5)"
            and c5: "case r5 of Inl err \<Rightarrow> r = Inl err \<and> w = w5 | Inr r0 \<Rightarrow>
              run_after_render_hooks 0 (after_render_hooks md) r0 w5 = (r, w)"
            by auto
          have "case r5 of
             Inl err \<Rightarrow> r = Inl err \<and> w = w5
           | Inr r0 \<Rightarrow> foldl chain_step (Inr r0, st w5) (after_render_hooks md) = (r, st w)"
          proof (cases r5)
            case (Inl err)
            with c5 show ?thesis by simp
          next
            case (Inr r0)
            with c5 have "run_after_render_hooks 0 (after_render_hooks md) r0 w5 = (r, w)" by simp
            with run_after_render_hooks_fold [of 0 "after_render_hooks md" r0 w5] Inr
            show ?thesis by simp
          qed
          with p5 f4 Inr4 show ?thesis by auto
        qed
      qed
    qed
  qed
qed

subsection \<open>The runs of the instance\<close>

lemmas demo_defs = demo_def demo_failing_def process_spec_def fresh_state_def start_def
  paragraph_parse_def text_inline_def count_tokens_def add_token_def failing_hook_def
  wrap_result_def count_elements_def parse_def invoke_def call_inline_def render_state_def
  list_data_def normalize_lines_def endswith_def strip_def isspace_def pystr_def CR_def LF_def
  Let_def

lemma demo_run: "parse demo (pystr ''hi'') None = (Inr (Num 1), demo_end)"
  by (simp add: demo_defs demo_end_def)

lemma demo_failing_run:
  "parse demo_failing (pystr ''hi'') None = (Inl (Exception ''boom''), failing_end)"
  by (simp add: demo_defs failing_end_def)





lemma sample_tree_run:
  "iter_render text_inline sample_tree start =
     (None,
      [Token ''list'' []
         (Some [Token ''paragraph'' [] (Some [Token ''text'' [(''raw'', PyStr [104, 105])] None None]) None])
         None,
       Token ''thematic_break'' [] None None],
      \<lparr>st = fresh_state,
       log = [Inline [104, 105], Yield ''paragraph'', Yield ''list'', Yield ''thematic_break'']\<rparr>)"
  by (simp add: sample_tree_def demo_defs)

section \<open>The properties of the specification\<close>

subsection \<open>The tree resolver\<close>

text \<open>
  C1. Before resolution no token has both \<^verbatim>\<open>'children'\<close> and \<^verbatim>\<open>'text'\<close>. When the
  resolver has run to its end over such a tree without an exception, no token of the
  tree has a \<^verbatim>\<open>'text'\<close>, and every token that had \<^verbatim>\<open>'children'\<close> or \<^verbatim>\<open>'text'\<close> has
  \<^verbatim>\<open>'children'\<close>: the resolved children of a token that had children, what the inline
  parser returned for a token that had a text. A token that had neither is returned as
  it was, so it has no \<^verbatim>\<open>'children'\<close> after the run either. The type and the other
  entries of every token are unchanged.
\<close>

theorem iter_render_resolves:
  "list_all at_most_one toks \<Longrightarrow> iter_render inl toks w = (None, toks', w') \<Longrightarrow>
     list_all2 resolved_from toks toks'"
  by (rule iter_render_resolved_from(2))

theorem iter_render_resolves_witness:
  "list_all at_most_one sample_tree \<and>
   fst (iter_render text_inline sample_tree start) = None \<and>
   list_all2 resolved_from sample_tree (fst (snd (iter_render text_inline sample_tree start)))"
proof -
  have h: "list_all at_most_one sample_tree"
    by (simp add: sample_tree_def)
  from iter_render_resolves [OF h sample_tree_run] h show ?thesis
    by (simp add: sample_tree_run)
qed

text \<open>
  A thematic break has neither \<^verbatim>\<open>'children'\<close> nor \<^verbatim>\<open>'text'\<close>; the resolver returns it
  as it is, without \<^verbatim>\<open>'children'\<close>.
\<close>

theorem plain_token_counterexample:
  "list_all at_most_one [Token ''thematic_break'' [] None None] \<and>
   fst (iter_render text_inline [Token ''thematic_break'' [] None None] start) = None \<and>
   \<not> list_all resolved
       (fst (snd (iter_render text_inline [Token ''thematic_break'' [] None None] start)))"
  by simp

text \<open>
  C3. The resolver works in post-order and in the order of its input. When it runs to
  its end without an exception, what it has appended to the log is, for each token of
  the input in turn, the whole log of its children (each child resolved and yielded,
  its own children first) and only then the token itself. The tokens it returns are
  those of the input, in the same order, each with its children resolved: a token that
  had children has the list of their resolutions, one for each child and in the same
  order, a token that had only a text has children and no text, and a token with
  neither is as it was.
\<close>

theorem iter_render_post_order:
  "iter_render inl toks w = (None, toks', w') \<Longrightarrow>
     log w' = log w @ concat (map postorder toks) \<and> map tok_type toks' = map tok_type toks \<and>
     list_all2 resolution toks toks'"
  using iter_render_postorder(2) [of inl toks w toks' w'] iter_render_resolution(2) [of inl toks w toks' w']
  by simp

theorem iter_render_post_order_witness:
  "iter_render text_inline sample_tree start =
     (None,
      [Token ''list'' []
         (Some [Token ''paragraph'' [] (Some [Token ''text'' [(''raw'', PyStr [104, 105])] None None]) None])
         None,
       Token ''thematic_break'' [] None None],
      \<lparr>st = fresh_state,
       log = [Inline [104, 105], Yield ''paragraph'', Yield ''list'', Yield ''thematic_break'']\<rparr>) \<and>
   log start @ concat (map postorder sample_tree) =
     [Inline (pystr ''hi''), Yield ''paragraph'', Yield ''list'', Yield ''thematic_break''] \<and>
   list_all2 resolution sample_tree
     [Token ''list'' []
        (Some [Token ''paragraph'' [] (Some [Token ''text'' [(''raw'', PyStr [104, 105])] None None]) None])
        None,
      Token ''thematic_break'' [] None None]"
proof -
  from iter_render_post_order [OF sample_tree_run]
  have "\<lparr>st = fresh_state,
       log = [Inline [104, 105], Yield ''paragraph'', Yield ''list'', Yield ''thematic_break'']\<rparr> =
      \<lparr>st = fresh_state, log = log start @ concat (map postorder sample_tree)\<rparr> \<and>
    list_all2 resolution sample_tree
     [Token ''list'' []
        (Some [Token ''paragraph'' [] (Some [Token ''text'' [(''raw'', PyStr [104, 105])] None None]) None])
        None,
      Token ''thematic_break'' [] None None]"
    by simp
  with sample_tree_run show ?thesis by (simp add: pystr_def)
qed

text \<open>
  C6. Resolution is idempotent on a resolved tree. Over a tree in which every token has
  \<^verbatim>\<open>'children'\<close> and none has \<^verbatim>\<open>'text'\<close>, the resolver raises nothing, returns the
  very same tree, leaves the state as it was, and calls the inline parser not once: the
  log grows by the tokens yielded and nothing else.
\<close>

theorem iter_render_idempotent:
  "list_all resolved toks \<Longrightarrow>
     iter_render inl toks w = (None, toks, w\<lparr>log := log w @ concat (map postorder toks)\<rparr>) \<and>
     filter is_inline (concat (map postorder toks)) = []"
  by (rule iter_render_resolved(2))

theorem iter_render_idempotent_witness:
  "list_all resolved resolved_tree \<and>
   iter_render text_inline resolved_tree start =
     (None, resolved_tree,
      start\<lparr>log := [Yield ''text'', Yield ''paragraph'', Yield ''list'']\<rparr>)"
proof -
  have h: "list_all resolved resolved_tree"
    by (simp add: resolved_tree_def)
  from iter_render_idempotent [OF h, of text_inline start] h show ?thesis
    by (simp add: resolved_tree_def start_def)
qed



subsection \<open>The pipeline of \<^verbatim>\<open>parse\<close>\<close>

text \<open>
  C2. In every run of \<^verbatim>\<open>parse\<close> the calls are made in this order: \<^verbatim>\<open>state.process\<close>
  on the normalised text, every hook of \<^verbatim>\<open>before_parse_hooks\<close> once and in the order
  of registration, \<^verbatim>\<open>self.block.parse\<close>, every hook of \<^verbatim>\<open>before_render_hooks\<close> once
  and in the order of registration, the resolver and the renderer, and every hook of
  \<^verbatim>\<open>after_render_hooks\<close> once and in the order of registration. The log of a run that
  returns is this sequence; the log of a run that raises is a beginning of it, with at
  least the call of \<^verbatim>\<open>state.process\<close>, followed by the exception. The order is also
  that of the effects: the state in which rendering starts is the one obtained from the
  state \<^verbatim>\<open>state.process\<close> has left by applying the hooks of \<^verbatim>\<open>before_parse_hooks\<close>
  from the first to the last, then \<^verbatim>\<open>self.block.parse\<close>, then the hooks of
  \<^verbatim>\<open>before_render_hooks\<close> from the first to the last, each to the state the one
  before it has left; and when one of these calls raises, \<^verbatim>\<open>parse\<close> raises the same
  exception and its state is the one this call has left. The hooks that run before
  parsing thus run after the source has been loaded into the state and before the block
  parser has parsed it.
\<close>

theorem parse_order:
  assumes "parse md s state = (r, w)"
  shows "(\<exists>evs post. list_all render_event evs \<and>
       (case r of
          Inr x \<Rightarrow> log w = pipeline md s evs
        | Inl err \<Rightarrow> \<exists>pre. log w = pre @ [Raised err] \<and> pre \<noteq> [] \<and> pipeline md s evs = pre @ post)) \<and>
     (case before_render md s state of
        (Inl err, state4) \<Rightarrow> r = Inl err \<and> st w = state4
      | (Inr u, state4) \<Rightarrow>
          \<exists>w4 r5 w5. st w4 = state4 \<and> render_state md w4 = (r5, w5) \<and>
            foldl chain_step (r5, st w5) (after_render_hooks md) = (r, st w))"
proof -
  have "case before_render md s state of
        (Inl err, state4) \<Rightarrow> r = Inl err \<and> st w = state4
      | (Inr u, state4) \<Rightarrow>
          \<exists>w4 r5 w5. st w4 = state4 \<and> render_state md w4 = (r5, w5) \<and>
            foldl chain_step (r5, st w5) (after_render_hooks md) = (r, st w)"
  proof (cases "before_render md s state")
    case (Pair r4 state4)
    show ?thesis
    proof (cases r4)
      case (Inl err)
      with Pair parse_chain [OF assms] show ?thesis by simp
    next
      case (Inr u)
      with Pair parse_chain [OF assms] obtain w4 r5 w5 where
        a: "st w4 = state4" "render_state md w4 = (r5, w5)"
        and b: "case r5 of
             Inl err \<Rightarrow> r = Inl err \<and> w = w5
           | Inr r0 \<Rightarrow> foldl chain_step (Inr r0, st w5) (after_render_hooks md) = (r, st w)"
        by auto
      from b have "foldl chain_step (r5, st w5) (after_render_hooks md) = (r, st w)"
        by (cases r5) (simp_all add: foldl_chain_step_Inl)
      with a Pair Inr show ?thesis by auto
    qed
  qed
  with parse_log [OF assms] show ?thesis by (rule conjI)
qed

theorem parse_order_witness:
  "parse demo (pystr ''hi'') None = (Inr (Num 1), demo_end) \<and>
   (\<exists>evs. list_all render_event evs \<and> log demo_end = pipeline demo (pystr ''hi'') evs) \<and>
   fst (before_render demo (pystr ''hi'') None) = Inr () \<and>
   env (snd (before_render demo (pystr ''hi'') None)) ''seen'' = Some (PyInt 0) \<and>
   map tok_type (tokens (snd (before_render demo (pystr ''hi'') None))) =
     [''block_text'', ''paragraph'', ''thematic_break''] \<and>
   parse demo_failing (pystr ''hi'') None = (Inl (Exception ''boom''), failing_end) \<and>
   before_render demo_failing (pystr ''hi'') None = (Inl (Exception ''boom''), st failing_end) \<and>
   (\<exists>evs post. list_all render_event evs \<and>
      (\<exists>pre. log failing_end = pre @ [Raised (Exception ''boom'')] \<and> pre \<noteq> [] \<and>
         pipeline demo_failing (pystr ''hi'') evs = pre @ post))"
proof -
  from parse_order [OF demo_run]
  have a: "\<exists>evs. list_all render_event evs \<and> log demo_end = pipeline demo (pystr ''hi'') evs"
    by simp
  from parse_order [OF demo_failing_run]
  have b: "\<exists>evs post. list_all render_event evs \<and>
      (\<exists>pre. log failing_end = pre @ [Raised (Exception ''boom'')] \<and> pre \<noteq> [] \<and>
         pipeline demo_failing (pystr ''hi'') evs = pre @ post)"
    by simp
  have c: "fst (before_render demo (pystr ''hi'') None) = Inr ()"
    "env (snd (before_render demo (pystr ''hi'') None)) ''seen'' = Some (PyInt 0)"
    "map tok_type (tokens (snd (before_render demo (pystr ''hi'') None))) =
       [''block_text'', ''paragraph'', ''thematic_break'']"
    by (simp_all add: before_render_def hook_step_def demo_defs)
  have d: "before_render demo_failing (pystr ''hi'') None =
      (Inl (Exception ''boom''), st failing_end)"
    by (simp add: before_render_def hook_step_def demo_defs failing_end_def)
  from demo_run a c demo_failing_run d b show ?thesis by (intro conjI)
qed

text \<open>
  In the run of \<open>demo\<close> on \<^verbatim>\<open>"hi"\<close> the first hook finds no token in the state: the
  block parser, whose tokens are in the result, runs after the two hooks.
\<close>

theorem pre_parse_hook_counterexample:
  "parse demo (pystr ''hi'') None = (Inr (Num 1), demo_end) \<and>
   log demo_end =
     [Process (pystr ''hi'' @ [LF]), BeforeParseHook 0, BeforeParseHook 1, BlockParse,
      Inline (pystr ''extra''), Yield ''block_text'', Inline (pystr ''hi''), Yield ''paragraph'',
      Yield ''thematic_break'', AfterRenderHook 0, AfterRenderHook 1] \<and>
   env (st demo_end) ''seen'' = Some (PyInt 0) \<and>
   map tok_type (tokens (st demo_end)) = [''block_text'', ''paragraph'', ''thematic_break'']"
  by (simp add: demo_run) (simp add: demo_end_def)

text \<open>
  C4. The normalised text holds no carriage return and ends with a newline. It is the
  text with its line separators replaced, or that text and one newline more; when the
  text given to \<^verbatim>\<open>parse\<close> ends with a newline already, none is appended. The
  normalised text is what \<^verbatim>\<open>state.process\<close> receives, and this call is the first of
  the run.
\<close>

theorem normalize_lines_spec:
  "CR \<notin> set (normalize_lines s) \<and> endswith (normalize_lines s) [LF] \<and>
   (normalize_lines s = replace [CR] [LF] (replace [CR, LF] [LF] s) \<or>
    normalize_lines s = replace [CR] [LF] (replace [CR, LF] [LF] s) @ [LF]) \<and>
   (endswith s [LF] \<longrightarrow> normalize_lines s = replace [CR] [LF] (replace [CR, LF] [LF] s)) \<and>
   (\<exists>evs. log (snd (parse md s state)) = Process (normalize_lines s) # evs)"
proof -
  have "normalize_lines s = replace [CR] [LF] (replace [CR, LF] [LF] s) \<or>
    normalize_lines s = replace [CR] [LF] (replace [CR, LF] [LF] s) @ [LF]"
    by (simp add: normalize_lines_def Let_def)
  with normalize_lines_no_CR normalize_lines_endswith normalize_lines_keep parse_log_head
  show ?thesis by blast
qed

theorem normalize_lines_spec_witness:
  "endswith (pystr ''a'' @ [CR, LF]) [LF] \<and>
   normalize_lines (pystr ''a'' @ [CR, LF]) = pystr ''a'' @ [LF] \<and>
   CR \<notin> set (normalize_lines (pystr ''a'' @ [CR, LF])) \<and>
   (\<exists>evs. log (snd (parse demo (pystr ''a'' @ [CR, LF]) None)) = Process (pystr ''a'' @ [LF]) # evs)"
proof -
  have h: "endswith (pystr ''a'' @ [CR, LF]) [LF]"
    by (simp add: endswith_def pystr_def)
  have n: "replace [CR] [LF] (replace [CR, LF] [LF] (pystr ''a'' @ [CR, LF])) = pystr ''a'' @ [LF]"
    by (simp add: pystr_def CR_def LF_def)
  note t = normalize_lines_spec [of "pystr ''a'' @ [CR, LF]" demo None]
  from t have "endswith (pystr ''a'' @ [CR, LF]) [LF] \<longrightarrow>
      normalize_lines (pystr ''a'' @ [CR, LF]) =
        replace [CR] [LF] (replace [CR, LF] [LF] (pystr ''a'' @ [CR, LF]))"
    by (rule conjunct1 [OF conjunct2 [OF conjunct2 [OF conjunct2]]])
  from mp [OF this h] n
  have e: "normalize_lines (pystr ''a'' @ [CR, LF]) = pystr ''a'' @ [LF]"
    by (rule trans)
  from t have c: "CR \<notin> set (normalize_lines (pystr ''a'' @ [CR, LF]))"
    by (rule conjunct1)
  from t have "\<exists>evs. log (snd (parse demo (pystr ''a'' @ [CR, LF]) None)) =
      Process (normalize_lines (pystr ''a'' @ [CR, LF])) # evs"
    by (rule conjunct2 [OF conjunct2 [OF conjunct2 [OF conjunct2]]])
  then have p: "\<exists>evs. log (snd (parse demo (pystr ''a'' @ [CR, LF]) None)) =
      Process (pystr ''a'' @ [LF]) # evs"
    unfolding e .
  from h e c p show ?thesis by (intro conjI)
qed

text \<open>
  A text that ends with two newlines is left as it is: the normalised text then ends
  with two newlines, not with exactly one.
\<close>

theorem two_newlines_counterexample:
  "normalize_lines (pystr ''a'' @ [LF, LF]) = pystr ''a'' @ [LF, LF] \<and>
   endswith (normalize_lines (pystr ''a'' @ [LF, LF])) [LF, LF]"
  by (simp add: normalize_lines_def endswith_def pystr_def CR_def LF_def)

text \<open>
  C5. The hooks of \<^verbatim>\<open>after_render_hooks\<close> are a fold from the left over the list, in the
  order of registration: in a run of \<^verbatim>\<open>parse\<close> that returns, the first hook receives
  the result of \<^verbatim>\<open>render_state\<close> (called in the state the stages before it have
  left), every other hook receives what the hook before it returned, and \<^verbatim>\<open>parse\<close>
  returns what the last hook returned, beside the state the last hook has left.
\<close>

theorem parse_after_render_fold:
  assumes "parse md s state = (Inr r, w)"
  shows "\<exists>w1 w2 w3 w4 r0 w5.
     invoke (Process (normalize_lines s)) (process (block md) (normalize_lines s))
       \<lparr>st = (case state of None \<Rightarrow> state_cls (block md) | Some state \<Rightarrow> state), log = []\<rparr>
       = (Inr (), w1) \<and>
     run_hooks BeforeParseHook 0 (before_parse_hooks md) w1 = (Inr (), w2) \<and>
     invoke BlockParse (block_parse (block md)) w2 = (Inr (), w3) \<and>
     run_hooks BeforeRenderHook 0 (before_render_hooks md) w3 = (Inr (), w4) \<and>
     render_state md w4 = (Inr r0, w5) \<and>
     foldl chain_step (Inr r0, st w5) (after_render_hooks md) = (Inr r, st w)"
proof -
  from parse_success [OF assms] obtain w1 w2 w3 w4 r0 w5 where
    s1: "invoke (Process (normalize_lines s)) (process (block md) (normalize_lines s))
       \<lparr>st = (case state of None \<Rightarrow> state_cls (block md) | Some state \<Rightarrow> state), log = []\<rparr>
       = (Inr (), w1)"
    and s2: "run_hooks BeforeParseHook 0 (before_parse_hooks md) w1 = (Inr (), w2)"
    and s3: "invoke BlockParse (block_parse (block md)) w2 = (Inr (), w3)"
    and s4: "run_hooks BeforeRenderHook 0 (before_render_hooks md) w3 = (Inr (), w4)"
    and s5: "render_state md w4 = (Inr r0, w5)"
    and s6: "run_after_render_hooks 0 (after_render_hooks md) r0 w5 = (Inr r, w)"
    by blast
  from run_after_render_hooks_fold [of 0 "after_render_hooks md" r0 w5] s6
  have "foldl chain_step (Inr r0, st w5) (after_render_hooks md) = (Inr r, st w)" by simp
  with s1 s2 s3 s4 s5 show ?thesis by blast
qed

theorem parse_after_render_fold_witness:
  "parse demo (pystr ''hi'') None = (Inr (Num 1), demo_end) \<and>
   (\<exists>w4 r0 w5. render_state demo w4 = (Inr r0, w5) \<and>
      foldl chain_step (Inr r0, st w5) [wrap_result, count_elements] = (Inr (Num 1), st demo_end)) \<and>
   chain_step (chain_step (Inr (Tokens []), fresh_state) wrap_result) count_elements =
     (Inr (Num 1), fresh_state)"
proof -
  from parse_after_render_fold [OF demo_run]
  have "\<exists>w4 r0 w5. render_state demo w4 = (Inr r0, w5) \<and>
      foldl chain_step (Inr r0, st w5) (after_render_hooks demo) = (Inr (Num 1), st demo_end)"
    by blast
  moreover have "after_render_hooks demo = [wrap_result, count_elements]"
    by (simp add: demo_def)
  ultimately have "\<exists>w4 r0 w5. render_state demo w4 = (Inr r0, w5) \<and>
      foldl chain_step (Inr r0, st w5) [wrap_result, count_elements] = (Inr (Num 1), st demo_end)"
    by simp
  moreover have "chain_step (chain_step (Inr (Tokens []), fresh_state) wrap_result) count_elements =
     (Inr (Num 1), fresh_state)"
    by (simp add: chain_step_def wrap_result_def count_elements_def)
  ultimately show ?thesis using demo_run by (intro conjI)
qed




subsection \<open>Reading a file\<close>

text \<open>
  C10. \<^verbatim>\<open>read\<close> records the path before it opens the file. When opening the file
  raises, or when its bytes do not decode, the exception is the outcome of \<^verbatim>\<open>read\<close>,
  nothing of \<^verbatim>\<open>parse\<close> has run, and the state (the one supplied, or a fresh one)
  differs from what it was only in that its \<^verbatim>\<open>env\<close> maps \<^verbatim>\<open>'__file__'\<close> to the
  path.
\<close>

theorem read_records_path_first:
  assumes "fs filepath = Inl err \<or> (\<exists>b. fs filepath = Inr b \<and> decode encoding b = Inl err)"
  shows "read md fs decode filepath encoding state =
     (Inl err,
      \<lparr>st = (case state of None \<Rightarrow> state_cls (block md) | Some state \<Rightarrow> state)
         \<lparr>env := (env (case state of None \<Rightarrow> state_cls (block md) | Some state \<Rightarrow> state))
            (''__file__'' \<mapsto> PyStr filepath)\<rparr>,
       log = []\<rparr>)"
  using assms by (auto simp: read_def Let_def)

theorem read_records_path_first_witness:
  "read demo no_files ascii (pystr ''a.md'') (pystr ''utf-8'') None =
     (Inl IOError,
      \<lparr>st = \<lparr>src = [], tokens = [], env = [''__file__'' \<mapsto> PyStr (pystr ''a.md'')]\<rparr>, log = []\<rparr>) \<and>
   read demo one_file ascii (pystr ''a.md'') (pystr ''utf-8'')
       (Some \<lparr>src = [], tokens = [], env = [''seen'' \<mapsto> PyInt 0]\<rparr>) =
     (Inl DecodeError,
      \<lparr>st = \<lparr>src = [], tokens = [],
         env = [''seen'' \<mapsto> PyInt 0, ''__file__'' \<mapsto> PyStr (pystr ''a.md'')]\<rparr>, log = []\<rparr>)"
proof -
  have h1: "no_files (pystr ''a.md'') = Inl IOError \<or>
      (\<exists>b. no_files (pystr ''a.md'') = Inr b \<and> ascii (pystr ''utf-8'') b = Inl IOError)"
    by (simp add: no_files_def)
  have h2: "one_file (pystr ''a.md'') = Inl DecodeError \<or>
      (\<exists>b. one_file (pystr ''a.md'') = Inr b \<and> ascii (pystr ''utf-8'') b = Inl DecodeError)"
    by (simp add: one_file_def ascii_def)
  from read_records_path_first [where fs = no_files and filepath = "pystr ''a.md''"
      and err = IOError and decode = ascii and encoding = "pystr ''utf-8''" and md = demo
      and state = None, OF h1]
    read_records_path_first [where fs = one_file and filepath = "pystr ''a.md''"
      and err = DecodeError and decode = ascii and encoding = "pystr ''utf-8''" and md = demo
      and state = "Some \<lparr>src = [], tokens = [], env = [''seen'' \<mapsto> PyInt 0]\<rparr>", OF h2]
  show ?thesis
    by (simp add: demo_def fresh_state_def)
qed

subsection \<open>The instance called as a function\<close>

text \<open>
  C8. Calling the instance on the empty string or on \<^verbatim>\<open>None\<close> gives what parsing the
  string of one newline gives, and of the pair \<^verbatim>\<open>parse\<close> returns only the result:
  the outcome of \<open>call\<close> is the first component of \<open>parse\<close> on \<^verbatim>\<open>"\n"\<close> with a fresh
  state, an exception when \<^verbatim>\<open>parse\<close> raises and the result otherwise.
\<close>

theorem call_empty_or_None:
  "call md (Some []) = fst (parse md [LF] None) \<and> call md None = fst (parse md [LF] None)"
  by (simp add: call_def parse_def normalize_lines_empty normalize_lines_newline)

end
